theory Spec2Isabelle
  imports Complex_Main
begin

section \<open>Overall performance scorer (PerformanceMetrics component)\<close>

text \<open>
  The \<^verbatim>\<open>metrics\<close> object of the component has four numeric fields, each of which
  may be missing or \<^verbatim>\<open>null\<close>. A field is modelled as \<open>real option\<close>: \<open>None\<close> stands
  for \<^verbatim>\<open>undefined\<close>/\<^verbatim>\<open>null\<close>, \<open>Some x\<close> for the finite number \<open>x\<close>.
\<close>

record metrics =
  rmse :: "real option"
  mae :: "real option"
  mape :: "real option"
  directional_accuracy :: "real option"

text \<open>
  JavaScript truthiness of such a field, as used by \<^verbatim>\<open>!metrics.rmse\<close>:
  \<^verbatim>\<open>undefined\<close>, \<^verbatim>\<open>null\<close> and the number \<open>0\<close> are falsy, every other finite number
  is truthy.
\<close>

fun truthy :: "real option \<Rightarrow> bool" where
  "truthy None = False"
| "truthy (Some x) = (x \<noteq> 0)"

text \<open>The negation \<^verbatim>\<open>!v\<close> of such a field.\<close>

fun falsy :: "real option \<Rightarrow> bool" where
  "falsy None = True"
| "falsy (Some x) = (x = 0)"

text \<open>
  \<^verbatim>\<open>calculateOverallScore\<close>: \<open>None\<close> is the \<^verbatim>\<open>null\<close> the function returns from its
  guard \<^verbatim>\<open>!metrics.rmse || !metrics.mae || !metrics.mape || !metrics.directional_accuracy\<close>;
  otherwise \<^verbatim>\<open>score\<close> starts at \<open>0\<close>, each of the four \<^verbatim>\<open>if\<close> chains adds 25, 15 or 5 to
  it, and \<^verbatim>\<open>Math.round(score)\<close> is returned.
\<close>

definition calculateOverallScore :: "metrics \<Rightarrow> int option" where
  "calculateOverallScore m =
     (if falsy (rmse m) \<or> falsy (mae m) \<or> falsy (mape m) \<or> falsy (directional_accuracy m)
      then None
      else
        (let score = (0 :: real);
             score = (if the (rmse m) < 2 then score + 25
                      else if the (rmse m) < 5 then score + 15
                      else score + 5);
             score = (if the (mae m) < 1.5 then score + 25
                      else if the (mae m) < 3 then score + 15
                      else score + 5);
             score = (if the (mape m) < 2 then score + 25
                      else if the (mape m) < 5 then score + 15
                      else score + 5);
             score = (if the (directional_accuracy m) > 65 then score + 25
                      else if the (directional_accuracy m) > 55 then score + 15
                      else score + 5)
         in Some (round score)))"

text \<open>The label rendered next to a non-null score.\<close>

definition scoreLabel :: "int \<Rightarrow> string" where
  "scoreLabel overallScore =
     (if overallScore \<ge> 80 then ''Excellent''
      else if overallScore \<ge> 60 then ''Good''
      else ''Needs Improvement'')"

section \<open>Chart data preparation (CandlestickChart component)\<close>

text \<open>
  A runtime failure of the JavaScript (reading a property of \<^verbatim>\<open>undefined\<close>, or
  \<^verbatim>\<open>reduce\<close> of an empty array with no initial value) is the value \<open>Inl TypeError\<close>.
\<close>

datatype error = TypeError

text \<open>
  One record of \<^verbatim>\<open>priceData\<close>. The source keeps \<^verbatim>\<open>date\<close> as an ISO string and reads
  it only through \<^verbatim>\<open>new Date(item.date)\<close>; the field \<open>date\<close> of the model is the
  number of milliseconds since the epoch which that expression denotes (dates are taken
  to parse). \<^verbatim>\<open>volume\<close> may be missing.
\<close>

record price_point =
  date :: int
  open_price :: real
  high_price :: real
  low_price :: real
  close_price :: real
  volume :: "real option"

text \<open>\<^verbatim>\<open>new Date(item.date).getTime() / 1000\<close>; numbers are idealised to reals.\<close>

definition timestamp_of :: "price_point \<Rightarrow> real" where
  "timestamp_of item = real_of_int (date item) / 1000"

text \<open>
  A JavaScript \<^verbatim>\<open>Map\<close> is a list of (key, value) entries in insertion order.
  \<^verbatim>\<open>map.set(k, v)\<close> replaces the value of an existing key where the entry stands and
  appends a new entry otherwise; \<^verbatim>\<open>Array.from(map.values())\<close> lists the values in
  entry order.
\<close>

fun map_set :: "'k \<Rightarrow> 'v \<Rightarrow> ('k \<times> 'v) list \<Rightarrow> ('k \<times> 'v) list" where
  "map_set k v [] = [(k, v)]"
| "map_set k v ((k', v') # m) = (if k' = k then (k, v) # m else (k', v') # map_set k v m)"

definition map_values :: "('k \<times> 'v) list \<Rightarrow> 'v list" where
  "map_values m = map snd m"

text \<open>
  The sort and de-duplication every effect of the component starts with
  (\<^verbatim>\<open>filterDataByTimeRange\<close> returns its argument unchanged):
  \<^verbatim>\<open>[...filteredData].sort((a, b) => new Date(a.date) - new Date(b.date))\<close>, a stable
  sort by date, then one \<^verbatim>\<open>dataMap.set(timestamp, item)\<close> per item.
\<close>

definition sortedData :: "price_point list \<Rightarrow> price_point list" where
  "sortedData priceData = sort_key date priceData"

definition dataMap :: "price_point list \<Rightarrow> (real \<times> price_point) list" where
  "dataMap priceData =
     fold (\<lambda>item m. map_set (timestamp_of item) item m) (sortedData priceData) []"

definition uniqueData :: "price_point list \<Rightarrow> price_point list" where
  "uniqueData priceData = map_values (dataMap priceData)"

text \<open>A point handed to a chart series: \<^verbatim>\<open>{time, value}\<close>.\<close>

record 'v point =
  time :: real
  val :: 'v

text \<open>\<^verbatim>\<open>xs[i]\<close> of a JavaScript array: \<open>None\<close> is \<^verbatim>\<open>undefined\<close>.\<close>

definition js_nth :: "'a list \<Rightarrow> nat \<Rightarrow> 'a option" where
  "js_nth xs i = (if i < length xs then Some (xs ! i) else None)"

text \<open>\<^verbatim>\<open>uniqueData[uniqueData.length - 1]\<close>, then \<^verbatim>\<open>.date\<close> of it.\<close>

definition lastTime :: "price_point list \<Rightarrow> error + real" where
  "lastTime ud = (case ud of [] \<Rightarrow> Inl TypeError | _ \<Rightarrow> Inr (timestamp_of (last ud)))"

subsection \<open>Forecast overlay\<close>

record forecast =
  predictions :: "real list"
  confidence_upper :: "real list"
  confidence_lower :: "real list"

text \<open>The synthetic time of prediction \<open>index\<close>: \<^verbatim>\<open>lastTime + (index + 1) * 3600\<close>.\<close>

definition forecast_time :: "real \<Rightarrow> nat \<Rightarrow> real" where
  "forecast_time lt index = lt + (real index + 1) * 3600"

definition forecastData :: "forecast \<Rightarrow> real \<Rightarrow> real point list" where
  "forecastData forecasts lt =
     (let forecastMap =
            fold (\<lambda>index m. map_set (forecast_time lt index)
                     \<lparr>time = forecast_time lt index, val = predictions forecasts ! index\<rparr> m)
                 [0..<length (predictions forecasts)] []
      in sort_key time (map_values forecastMap))"

text \<open>
  The confidence band. Both \<^verbatim>\<open>forEach\<close> passes write into the one \<^verbatim>\<open>confidenceMap\<close>:
  the first the upper bounds by ascending index, the second the lower bounds by
  \<^verbatim>\<open>reverseIndex = predictions.length - 1 - index\<close>. The values of the map are then
  sorted by time.
\<close>

definition confidenceMap :: "forecast \<Rightarrow> real \<Rightarrow> (real \<times> real option point) list" where
  "confidenceMap forecasts lt =
     (let n = length (predictions forecasts);
          withUpper =
            fold (\<lambda>index m. map_set (forecast_time lt index)
                     \<lparr>time = forecast_time lt index,
                      val = js_nth (confidence_upper forecasts) index\<rparr> m)
                 [0..<n] []
      in fold (\<lambda>index m.
                 let reverseIndex = n - 1 - index
                 in map_set (forecast_time lt reverseIndex)
                      \<lparr>time = forecast_time lt reverseIndex,
                       val = js_nth (confidence_lower forecasts) reverseIndex\<rparr> m)
              [0..<n] withUpper)"

definition confidenceData :: "forecast \<Rightarrow> real \<Rightarrow> real option point list" where
  "confidenceData forecasts lt = sort_key time (map_values (confidenceMap forecasts lt))"

text \<open>
  The forecast effect as a whole: \<open>Inr None\<close> when the guard returns early (no forecast or
  no price data), otherwise the two arrays handed to \<^verbatim>\<open>setData\<close>.
\<close>

definition forecastOverlay ::
  "forecast option \<Rightarrow> price_point list \<Rightarrow> error + (real point list \<times> real option point list) option"
where
  "forecastOverlay forecasts priceData =
     (case forecasts of
        None \<Rightarrow> Inr None
      | Some f \<Rightarrow>
          if priceData = [] then Inr None
          else (case lastTime (uniqueData priceData) of
                  Inl e \<Rightarrow> Inl e
                | Inr lt \<Rightarrow> Inr (Some (forecastData f lt, confidenceData f lt))))"

subsection \<open>Portfolio value overlay\<close>

record portfolio_metric =
  metric_date :: int
  total_value :: "real option"

text \<open>\<^verbatim>\<open>a || b\<close> on values that are a number, \<^verbatim>\<open>null\<close> or \<^verbatim>\<open>undefined\<close>.\<close>

definition js_or :: "real option \<Rightarrow> real option \<Rightarrow> real option" where
  "js_or a b = (if truthy a then a else b)"

text \<open>\<^verbatim>\<open>metric.total_value || (initialCapital || 10000)\<close>.\<close>

definition portfolioValue :: "real option \<Rightarrow> real option \<Rightarrow> real option" where
  "portfolioValue tv initialCapital = js_or tv (js_or initialCapital (Some 10000))"

text \<open>
  The linear scan for the closest price point: one step of the \<^verbatim>\<open>for ... of\<close> loop on
  the pair \<^verbatim>\<open>(closestPricePoint, minDiff)\<close>, and the scan started at \<^verbatim>\<open>uniqueData[0]\<close>.
\<close>

definition closest_step :: "int \<Rightarrow> price_point \<Rightarrow> price_point \<times> int \<Rightarrow> price_point \<times> int" where
  "closest_step metricDate pricePoint st =
     (let diff = \<bar>date pricePoint - metricDate\<bar>
      in if diff < snd st then (pricePoint, diff) else st)"

definition closestPricePoint :: "int \<Rightarrow> price_point list \<Rightarrow> error + price_point" where
  "closestPricePoint metricDate ud =
     (case ud of
        [] \<Rightarrow> Inl TypeError
      | p0 # _ \<Rightarrow> Inr (fst (fold (closest_step metricDate) ud (p0, \<bar>date p0 - metricDate\<bar>))))"

fun portfolioData ::
  "portfolio_metric list \<Rightarrow> price_point list \<Rightarrow> real option \<Rightarrow> error + real option point list"
where
  "portfolioData [] ud initialCapital = Inr []"
| "portfolioData (metric # rest) ud initialCapital =
     (case closestPricePoint (metric_date metric) ud of
        Inl e \<Rightarrow> Inl e
      | Inr c \<Rightarrow>
          (case portfolioData rest ud initialCapital of
             Inl e \<Rightarrow> Inl e
           | Inr ps \<Rightarrow>
               Inr (\<lparr>time = timestamp_of c,
                     val = portfolioValue (total_value metric) initialCapital\<rparr> # ps)))"

definition uniquePortfolioData :: "real option point list \<Rightarrow> real option point list" where
  "uniquePortfolioData pd =
     sort_key time (map_values (fold (\<lambda>item m. map_set (time item) item m) pd []))"

text \<open>
  The portfolio effect: \<open>Inr (Some ps)\<close> is a call \<^verbatim>\<open>setData(ps)\<close>, \<open>Inr None\<close> a run that
  leaves the series as it is. An absent history is treated by the guard like an empty
  one.
\<close>

definition portfolioOverlay ::
  "portfolio_metric list \<Rightarrow> price_point list \<Rightarrow> real option \<Rightarrow> error + real option point list option"
where
  "portfolioOverlay portfolioValueHistory priceData initialCapital =
     (if portfolioValueHistory = [] then Inr (Some [])
      else if priceData = [] then Inr None
      else (case portfolioData portfolioValueHistory (uniqueData priceData) initialCapital of
              Inl e \<Rightarrow> Inl e
            | Inr pd \<Rightarrow>
                if length (uniquePortfolioData pd) > 0 then Inr (Some (uniquePortfolioData pd))
                else Inr None))"

section \<open>Technical indicators (TechnicalIndicators component)\<close>

subsection \<open>JavaScript numbers with their special values\<close>

text \<open>
  A value of an arithmetic expression: a finite number (a real), one of the infinities,
  \<^verbatim>\<open>NaN\<close>, or \<^verbatim>\<open>undefined\<close> (an array read out of range). \<open>Num 0\<close> stands for both
  zeros; where the sign of a zero divisor would matter it is taken as \<open>+0\<close>. The
  operations of this subsection give the exact result on two finite numbers (rounding
  and overflow are left out); the EMA, the MACD and the Stochastic are written with
  them. The next subsection adds rounding and overflow, for the RSI and the Bollinger
  Bands.
\<close>

datatype jsval = Num real | PInf | NInf | NaN | Undefined

fun js_neg :: "jsval \<Rightarrow> jsval" where
  "js_neg (Num a) = Num (- a)"
| "js_neg PInf = NInf"
| "js_neg NInf = PInf"
| "js_neg NaN = NaN"
| "js_neg Undefined = NaN"

fun js_add :: "jsval \<Rightarrow> jsval \<Rightarrow> jsval" where
  "js_add (Num a) (Num b) = Num (a + b)"
| "js_add NaN _ = NaN"
| "js_add _ NaN = NaN"
| "js_add Undefined _ = NaN"
| "js_add _ Undefined = NaN"
| "js_add PInf NInf = NaN"
| "js_add NInf PInf = NaN"
| "js_add PInf _ = PInf"
| "js_add _ PInf = PInf"
| "js_add NInf _ = NInf"
| "js_add _ NInf = NInf"

definition js_sub :: "jsval \<Rightarrow> jsval \<Rightarrow> jsval" where
  "js_sub a b = js_add a (js_neg b)"

text \<open>The sign rule for a product or quotient with an infinite result.\<close>

definition signed_inf :: "bool \<Rightarrow> jsval" where
  "signed_inf positive = (if positive then PInf else NInf)"

fun js_mul :: "jsval \<Rightarrow> jsval \<Rightarrow> jsval" where
  "js_mul (Num a) (Num b) = Num (a * b)"
| "js_mul NaN _ = NaN"
| "js_mul _ NaN = NaN"
| "js_mul Undefined _ = NaN"
| "js_mul _ Undefined = NaN"
| "js_mul PInf (Num b) = (if b = 0 then NaN else signed_inf (b > 0))"
| "js_mul NInf (Num b) = (if b = 0 then NaN else signed_inf (b < 0))"
| "js_mul (Num a) PInf = (if a = 0 then NaN else signed_inf (a > 0))"
| "js_mul (Num a) NInf = (if a = 0 then NaN else signed_inf (a < 0))"
| "js_mul PInf PInf = PInf"
| "js_mul NInf NInf = PInf"
| "js_mul PInf NInf = NInf"
| "js_mul NInf PInf = NInf"

fun js_div :: "jsval \<Rightarrow> jsval \<Rightarrow> jsval" where
  "js_div (Num a) (Num b) =
     (if b \<noteq> 0 then Num (a / b) else if a = 0 then NaN else signed_inf (a > 0))"
| "js_div NaN _ = NaN"
| "js_div _ NaN = NaN"
| "js_div Undefined _ = NaN"
| "js_div _ Undefined = NaN"
| "js_div (Num a) PInf = Num 0"
| "js_div (Num a) NInf = Num 0"
| "js_div PInf (Num b) = signed_inf (b \<ge> 0)"
| "js_div NInf (Num b) = signed_inf (b < 0)"
| "js_div PInf PInf = NaN"
| "js_div PInf NInf = NaN"
| "js_div NInf PInf = NaN"
| "js_div NInf NInf = NaN"

text \<open>\<^verbatim>\<open>xs[i]\<close> where the index is computed and may be negative or past the end.\<close>

definition js_get :: "jsval list \<Rightarrow> int \<Rightarrow> jsval" where
  "js_get xs i = (if 0 \<le> i \<and> i < int (length xs) then xs ! nat i else Undefined)"

text \<open>
  \<^verbatim>\<open>xs.slice(start, end)\<close> for indices that are not negative: the elements from
  \<open>start\<close> up to, not including, \<open>end\<close>, cut at the end of the array.
\<close>

definition js_slice :: "'a list \<Rightarrow> nat \<Rightarrow> nat \<Rightarrow> 'a list" where
  "js_slice xs start end = take (end - start) (drop start xs)"

text \<open>\<^verbatim>\<open>Math.max(...xs)\<close> and \<^verbatim>\<open>Math.min(...xs)\<close>; of no arguments they are the infinities.\<close>

definition math_max :: "real list \<Rightarrow> jsval" where
  "math_max xs = (case xs of [] \<Rightarrow> NInf | x # rest \<Rightarrow> Num (fold max rest x))"

definition math_min :: "real list \<Rightarrow> jsval" where
  "math_min xs = (case xs of [] \<Rightarrow> PInf | x # rest \<Rightarrow> Num (fold min rest x))"

subsection \<open>Double arithmetic with rounding and overflow\<close>

text \<open>
  What the RSI and the Bollinger Bands return depends on the double arithmetic at the
  edge of its range, so these two functions are modelled with it. An arithmetic result
  is first rounded to a double as if the exponent had no bound, and a rounded result
  beyond the largest double, \<open>2 ^ 1024 - 2 ^ 971\<close>, is an infinity. The rounding is the
  parameter \<open>rnd\<close> of the model: the program's is the rounding to the nearest double
  (ties to even) of IEEE 754, and the theorems below hold for every \<open>rnd\<close> that
  \<open>rounding\<close> admits, which that one is.
\<close>

definition max_double :: real where
  "max_double = 2 ^ 1024 - 2 ^ 971"

definition js_round :: "(real \<Rightarrow> real) \<Rightarrow> real \<Rightarrow> jsval" where
  "js_round rnd x =
     (if rnd x > max_double then PInf
      else if rnd x < - max_double then NInf
      else Num (rnd x))"

text \<open>
  The four operations on doubles: two finite operands give the rounded exact result
  (a division by zero follows \<open>js_div\<close>), and an operand that is not finite follows the
  rules of the special values above.
\<close>

fun fl_add :: "(real \<Rightarrow> real) \<Rightarrow> jsval \<Rightarrow> jsval \<Rightarrow> jsval" where
  "fl_add rnd (Num a) (Num b) = js_round rnd (a + b)"
| "fl_add rnd a b = js_add a b"

definition fl_sub :: "(real \<Rightarrow> real) \<Rightarrow> jsval \<Rightarrow> jsval \<Rightarrow> jsval" where
  "fl_sub rnd a b = fl_add rnd a (js_neg b)"

fun fl_mul :: "(real \<Rightarrow> real) \<Rightarrow> jsval \<Rightarrow> jsval \<Rightarrow> jsval" where
  "fl_mul rnd (Num a) (Num b) = js_round rnd (a * b)"
| "fl_mul rnd a b = js_mul a b"

fun fl_div :: "(real \<Rightarrow> real) \<Rightarrow> jsval \<Rightarrow> jsval \<Rightarrow> jsval" where
  "fl_div rnd (Num a) (Num b) = (if b = 0 then js_div (Num a) (Num b) else js_round rnd (a / b))"
| "fl_div rnd a b = js_div a b"

text \<open>The comparisons \<^verbatim>\<open>a < b\<close> and \<^verbatim>\<open>a <= b\<close>: false as soon as one side is \<^verbatim>\<open>NaN\<close>.\<close>

fun js_lt :: "jsval \<Rightarrow> jsval \<Rightarrow> bool" where
  "js_lt (Num a) (Num b) = (a < b)"
| "js_lt NInf (Num b) = True"
| "js_lt NInf PInf = True"
| "js_lt (Num a) PInf = True"
| "js_lt a b = False"

fun js_le :: "jsval \<Rightarrow> jsval \<Rightarrow> bool" where
  "js_le (Num a) (Num b) = (a \<le> b)"
| "js_le NInf (Num b) = True"
| "js_le NInf PInf = True"
| "js_le (Num a) PInf = True"
| "js_le NInf NInf = True"
| "js_le PInf PInf = True"
| "js_le a b = False"

text \<open>\<^verbatim>\<open>Math.abs\<close>, \<^verbatim>\<open>Math.sqrt\<close> and \<^verbatim>\<open>Math.pow(x, 2)\<close>.\<close>

fun math_abs :: "jsval \<Rightarrow> jsval" where
  "math_abs (Num a) = Num \<bar>a\<bar>"
| "math_abs PInf = PInf"
| "math_abs NInf = PInf"
| "math_abs a = NaN"

fun math_sqrt :: "(real \<Rightarrow> real) \<Rightarrow> jsval \<Rightarrow> jsval" where
  "math_sqrt rnd (Num a) = (if a < 0 then NaN else js_round rnd (sqrt a))"
| "math_sqrt rnd PInf = PInf"
| "math_sqrt rnd a = NaN"

definition math_pow2 :: "(real \<Rightarrow> real) \<Rightarrow> jsval \<Rightarrow> jsval" where
  "math_pow2 rnd a = fl_mul rnd a a"

text \<open>
  \<^verbatim>\<open>xs.reduce((a, b) => a + b)\<close>, with no initial value: a TypeError on the empty
  array, otherwise the left fold from the first element.
\<close>

definition reduce_add :: "(real \<Rightarrow> real) \<Rightarrow> jsval list \<Rightarrow> error + jsval" where
  "reduce_add rnd xs =
     (case xs of [] \<Rightarrow> Inl TypeError | x # rest \<Rightarrow> Inr (foldl (fl_add rnd) x rest))"

text \<open>
  What the proofs use of the rounding to nearest: it is monotone, it leaves a value
  that is already rounded as it is, and \<open>0\<close>, \<open>1\<close> and \<open>100\<close> are doubles.
\<close>

definition rounding :: "(real \<Rightarrow> real) \<Rightarrow> bool" where
  "rounding rnd =
     ((\<forall>x y. x \<le> y \<longrightarrow> rnd x \<le> rnd y) \<and> (\<forall>x. rnd (rnd x) = rnd x)
      \<and> rnd 0 = 0 \<and> rnd 1 = 1 \<and> rnd 100 = 100)"

text \<open>
  The rounding that changes nothing, for runs on inputs all of whose results are doubles
  (or where only the overflow matters).
\<close>

definition exact :: "real \<Rightarrow> real" where
  "exact x = x"

subsection \<open>RSI\<close>

text \<open>
  The first loop of \<^verbatim>\<open>calculateRSI\<close>: \<^verbatim>\<open>change = prices[i] - prices[i - 1]\<close> for
  \<open>i\<close> from \<open>1\<close>, pushed as a gain (\<^verbatim>\<open>change > 0 ? change : 0\<close>) and as a loss
  (\<^verbatim>\<open>change < 0 ? Math.abs(change) : 0\<close>). The prices are finite numbers.
\<close>

fun changes :: "(real \<Rightarrow> real) \<Rightarrow> real list \<Rightarrow> jsval list" where
  "changes rnd (a # b # rest) = fl_sub rnd (Num b) (Num a) # changes rnd (b # rest)"
| "changes rnd prices = []"

definition gains :: "(real \<Rightarrow> real) \<Rightarrow> real list \<Rightarrow> jsval list" where
  "gains rnd prices =
     map (\<lambda>change. if js_lt (Num 0) change then change else Num 0) (changes rnd prices)"

definition losses :: "(real \<Rightarrow> real) \<Rightarrow> real list \<Rightarrow> jsval list" where
  "losses rnd prices =
     map (\<lambda>change. if js_lt change (Num 0) then math_abs change else Num 0) (changes rnd prices)"

text \<open>The value pushed for one window, after both averages are known.\<close>

definition rsi_of :: "(real \<Rightarrow> real) \<Rightarrow> jsval \<Rightarrow> jsval \<Rightarrow> jsval" where
  "rsi_of rnd avgGain avgLoss =
     (if avgLoss = Num 0 then Num 100
      else let rs = fl_div rnd avgGain avgLoss
           in fl_sub rnd (Num 100) (fl_div rnd (Num 100) (fl_add rnd (Num 1) rs)))"

text \<open>
  The second loop, \<^verbatim>\<open>for (let i = period - 1; i < gains.length; i++)\<close>. The model
  counts \<open>start = i - period + 1\<close>, the first index of the slice
  \<^verbatim>\<open>slice(i - period + 1, i + 1)\<close>, from \<open>0\<close>; the test \<^verbatim>\<open>i < gains.length\<close> reads
  \<open>start + period \<le> length gs\<close>. The period is a natural number.
\<close>

function rsi_loop ::
  "(real \<Rightarrow> real) \<Rightarrow> jsval list \<Rightarrow> jsval list \<Rightarrow> nat \<Rightarrow> nat \<Rightarrow> jsval list \<Rightarrow> error + jsval list"
where
  "rsi_loop rnd gs ls period start rsiValues =
     (if start + period \<le> length gs then
        (case reduce_add rnd (js_slice gs start (start + period)) of
           Inl e \<Rightarrow> Inl e
         | Inr sumGain \<Rightarrow>
             (case reduce_add rnd (js_slice ls start (start + period)) of
                Inl e \<Rightarrow> Inl e
              | Inr sumLoss \<Rightarrow>
                  rsi_loop rnd gs ls period (Suc start)
                    (rsiValues @ [rsi_of rnd (fl_div rnd sumGain (Num (real period)))
                                             (fl_div rnd sumLoss (Num (real period)))])))
      else Inr rsiValues)"
  by pat_completeness auto
termination
  by (relation "measure (\<lambda>(rnd, gs, ls, period, start, rsiValues). Suc (length gs) - (start + period))")
     auto

definition calculateRSI :: "(real \<Rightarrow> real) \<Rightarrow> real list \<Rightarrow> nat \<Rightarrow> error + jsval list" where
  "calculateRSI rnd prices period =
     rsi_loop rnd (gains rnd prices) (losses rnd prices) period 0 []"

subsection \<open>EMA and MACD\<close>

text \<open>
  \<^verbatim>\<open>calculateEMA\<close>: the array starts as \<^verbatim>\<open>[prices[0]]\<close>, which is \<^verbatim>\<open>[undefined]\<close> for
  no prices; each further price pushes
  \<^verbatim>\<open>prices[i] * multiplier + ema[i - 1] * (1 - multiplier)\<close>. \<open>ema_loop\<close> carries
  \<^verbatim>\<open>ema[i - 1]\<close>, the value pushed last.
\<close>

fun ema_loop :: "real \<Rightarrow> jsval \<Rightarrow> jsval list \<Rightarrow> jsval list" where
  "ema_loop multiplier prev [] = []"
| "ema_loop multiplier prev (price # rest) =
     (let e = js_add (js_mul price (Num multiplier)) (js_mul prev (Num (1 - multiplier)))
      in e # ema_loop multiplier e rest)"

definition calculateEMA :: "jsval list \<Rightarrow> nat \<Rightarrow> jsval list" where
  "calculateEMA prices period =
     (let multiplier = 2 / (real period + 1)
      in case prices of
           [] \<Rightarrow> [Undefined]
         | first # rest \<Rightarrow> first # ema_loop multiplier first rest)"

record macd =
  macdLine :: "jsval list"
  signalLine :: "jsval list"
  histogram :: "jsval list"

text \<open>\<^verbatim>\<open>xs.map((x, i) => x - ys[i])\<close>.\<close>

definition map_sub :: "jsval list \<Rightarrow> jsval list \<Rightarrow> jsval list" where
  "map_sub xs ys = map (\<lambda>(i, x). js_sub x (js_get ys (int i))) (enumerate 0 xs)"

definition calculateMACD :: "jsval list \<Rightarrow> nat \<Rightarrow> nat \<Rightarrow> nat \<Rightarrow> macd" where
  "calculateMACD prices fastPeriod slowPeriod signalPeriod =
     (let emaFast = calculateEMA prices fastPeriod;
          emaSlow = calculateEMA prices slowPeriod;
          macdLine = map_sub emaFast emaSlow;
          signalLine = calculateEMA macdLine signalPeriod;
          histogram = map_sub macdLine signalLine
      in \<lparr>macdLine = macdLine, signalLine = signalLine, histogram = histogram\<rparr>)"

subsection \<open>Bollinger Bands\<close>

record bollinger =
  sma :: "jsval list"
  upperBand :: "jsval list"
  lowerBand :: "jsval list"

text \<open>
  \<^verbatim>\<open>slice.reduce((a, b) => a + Math.pow(b - mean, 2), 0) / period\<close>, with the initial
  value \<open>0\<close>.
\<close>

definition variance_of :: "(real \<Rightarrow> real) \<Rightarrow> jsval list \<Rightarrow> jsval \<Rightarrow> nat \<Rightarrow> jsval" where
  "variance_of rnd slice mean period =
     fl_div rnd (foldl (\<lambda>a b. fl_add rnd a (math_pow2 rnd (fl_sub rnd b mean))) (Num 0) slice)
       (Num (real period))"

text \<open>
  The loop \<^verbatim>\<open>for (let i = period - 1; i < prices.length; i++)\<close>, counted by
  \<open>start = i - period + 1\<close> as for the RSI. The prices and the multiplier \<^verbatim>\<open>stdDev\<close> are
  finite numbers.
\<close>

function bollinger_loop ::
  "(real \<Rightarrow> real) \<Rightarrow> real list \<Rightarrow> nat \<Rightarrow> real \<Rightarrow> nat \<Rightarrow> bollinger \<Rightarrow> error + bollinger"
where
  "bollinger_loop rnd prices period stdDev start bands =
     (if start + period \<le> length prices then
        (let slice = js_slice (map Num prices) start (start + period)
         in case reduce_add rnd slice of
              Inl e \<Rightarrow> Inl e
            | Inr sliceSum \<Rightarrow>
                (let mean = fl_div rnd sliceSum (Num (real period));
                     variance = variance_of rnd slice mean period;
                     standardDeviation = math_sqrt rnd variance
                 in bollinger_loop rnd prices period stdDev (Suc start)
                      \<lparr>sma = sma bands @ [mean],
                       upperBand = upperBand bands @
                         [fl_add rnd mean (fl_mul rnd standardDeviation (Num stdDev))],
                       lowerBand = lowerBand bands @
                         [fl_sub rnd mean (fl_mul rnd standardDeviation (Num stdDev))]\<rparr>))
      else Inr bands)"
  by pat_completeness auto
termination
  by (relation "measure (\<lambda>(rnd, prices, period, stdDev, start, bands). Suc (length prices) - (start + period))")
     auto

definition calculateBollingerBands ::
  "(real \<Rightarrow> real) \<Rightarrow> real list \<Rightarrow> nat \<Rightarrow> real \<Rightarrow> error + bollinger"
where
  "calculateBollingerBands rnd prices period stdDev =
     bollinger_loop rnd prices period stdDev 0 \<lparr>sma = [], upperBand = [], lowerBand = []\<rparr>"

subsection \<open>Stochastic %K\<close>

text \<open>
  One sample: \<^verbatim>\<open>((close - lowestLow) / (highestHigh - lowestLow)) * 100\<close>, with no test
  of the divisor.
\<close>

definition stochastic_k :: "jsval \<Rightarrow> jsval \<Rightarrow> jsval \<Rightarrow> jsval" where
  "stochastic_k close highestHigh lowestLow =
     js_mul (js_div (js_sub close lowestLow) (js_sub highestHigh lowestLow)) (Num 100)"

text \<open>
  The loop \<^verbatim>\<open>for (let i = period - 1; i < closes.length; i++)\<close>, counted by
  \<open>start = i - period + 1\<close>; \<^verbatim>\<open>closes[i]\<close> is read at \<open>i = start + period - 1\<close>, which is
  \<open>-1\<close> in the first round of a period \<open>0\<close>.
\<close>

function stochastic_loop :: "real list \<Rightarrow> real list \<Rightarrow> real list \<Rightarrow> nat \<Rightarrow> nat \<Rightarrow> jsval list \<Rightarrow> jsval list" where
  "stochastic_loop highs lows closes period start kValues =
     (if start + period \<le> length closes then
        (let highSlice = js_slice highs start (start + period);
             lowSlice = js_slice lows start (start + period);
             close = js_get (map Num closes) (int start + int period - 1);
             highestHigh = math_max highSlice;
             lowestLow = math_min lowSlice;
             k = stochastic_k close highestHigh lowestLow
         in stochastic_loop highs lows closes period (Suc start) (kValues @ [k]))
      else kValues)"
  by pat_completeness auto
termination
  by (relation "measure (\<lambda>(highs, lows, closes, period, start, kValues). Suc (length closes) - (start + period))")
     auto

definition calculateStochastic :: "real list \<Rightarrow> real list \<Rightarrow> real list \<Rightarrow> nat \<Rightarrow> jsval list" where
  "calculateStochastic highs lows closes period = stochastic_loop highs lows closes period 0 []"

section \<open>Auxiliary notions for the proofs\<close>

text \<open>A map whose every entry is stored under the key computed from its value.\<close>

definition keyed :: "('v \<Rightarrow> 'k) \<Rightarrow> ('k \<times> 'v) list \<Rightarrow> bool" where
  "keyed f m = (\<forall>e \<in> set m. f (snd e) = fst e)"

text \<open>A flat price bar with the given date and price, for concrete runs.\<close>

definition bar :: "int \<Rightarrow> real \<Rightarrow> price_point" where
  "bar d c = \<lparr>date = d, open_price = c, high_price = c, low_price = c, close_price = c, volume = None\<rparr>"

text \<open>
  The recursive equations of the three loop functions are used one step at a time, not as
  rewrite rules.
\<close>

declare rsi_loop.simps [simp del]
declare bollinger_loop.simps [simp del]
declare stochastic_loop.simps [simp del]

text \<open>The values that are a number not below zero, or \<open>+\<infinity>\<close>; and those that are not \<^verbatim>\<open>NaN\<close>.\<close>

fun nonneg :: "jsval \<Rightarrow> bool" where
  "nonneg (Num a) = (0 \<le> a)"
| "nonneg PInf = True"
| "nonneg v = False"

fun not_nan :: "jsval \<Rightarrow> bool" where
  "not_nan (Num a) = True"
| "not_nan PInf = True"
| "not_nan NInf = True"
| "not_nan v = False"

text \<open>
  The value of \<^verbatim>\<open>xs.reduce((a, b) => a + b)\<close> on an array that is not empty, the
  average of the window of \<open>xs\<close> that starts at \<open>start\<close>, and the RSI value of that
  window.
\<close>

definition js_sum :: "(real \<Rightarrow> real) \<Rightarrow> jsval list \<Rightarrow> jsval" where
  "js_sum rnd xs = (case xs of [] \<Rightarrow> Undefined | x # rest \<Rightarrow> foldl (fl_add rnd) x rest)"

definition avg_at :: "(real \<Rightarrow> real) \<Rightarrow> jsval list \<Rightarrow> nat \<Rightarrow> nat \<Rightarrow> jsval" where
  "avg_at rnd xs period start =
     fl_div rnd (js_sum rnd (js_slice xs start (start + period))) (Num (real period))"

definition rsi_window :: "(real \<Rightarrow> real) \<Rightarrow> jsval list \<Rightarrow> jsval list \<Rightarrow> nat \<Rightarrow> nat \<Rightarrow> jsval" where
  "rsi_window rnd gs ls period start =
     rsi_of rnd (fl_div rnd (js_sum rnd (js_slice gs start (start + period))) (Num (real period)))
                (fl_div rnd (js_sum rnd (js_slice ls start (start + period))) (Num (real period)))"

text \<open>The mean and the standard deviation of the Bollinger window that starts at \<open>start\<close>.\<close>

definition mean_at :: "(real \<Rightarrow> real) \<Rightarrow> real list \<Rightarrow> nat \<Rightarrow> nat \<Rightarrow> jsval" where
  "mean_at rnd prices period start =
     fl_div rnd (js_sum rnd (js_slice (map Num prices) start (start + period))) (Num (real period))"

definition sd_at :: "(real \<Rightarrow> real) \<Rightarrow> real list \<Rightarrow> nat \<Rightarrow> nat \<Rightarrow> jsval" where
  "sd_at rnd prices period start =
     math_sqrt rnd (variance_of rnd (js_slice (map Num prices) start (start + period))
                      (mean_at rnd prices period start) period)"

text \<open>A price in the top binade of the doubles, for runs that overflow.\<close>

definition huge :: real where
  "huge = 2 ^ 1023"

text \<open>The %K sample of the window that starts at \<open>start\<close>.\<close>

definition k_at :: "real list \<Rightarrow> real list \<Rightarrow> real list \<Rightarrow> nat \<Rightarrow> nat \<Rightarrow> jsval" where
  "k_at highs lows closes period start =
     stochastic_k (js_get (map Num closes) (int start + int period - 1))
       (math_max (js_slice highs start (start + period)))
       (math_min (js_slice lows start (start + period)))"

text \<open>Finite numbers among the values.\<close>

fun is_num :: "jsval \<Rightarrow> bool" where
  "is_num (Num x) = True"
| "is_num v = False"

section \<open>Properties of the scorer\<close>

lemma falsy_iff: "falsy v \<longleftrightarrow> \<not> truthy v"
  by (cases v) simp_all

lemma score_null_if_missing:
  "rmse m = None \<or> mae m = None \<or> mape m = None \<or> directional_accuracy m = None
   \<Longrightarrow> calculateOverallScore m = None"
  by (auto simp: calculateOverallScore_def)

lemma score_defined_iff_truthy:
  "(calculateOverallScore m \<noteq> None) =
   (truthy (rmse m) \<and> truthy (mae m) \<and> truthy (mape m) \<and> truthy (directional_accuracy m))"
  by (simp add: calculateOverallScore_def falsy_iff)

lemma score_range_of_truthy:
  assumes "truthy (rmse m)" "truthy (mae m)" "truthy (mape m)" "truthy (directional_accuracy m)"
  shows "\<exists>s. calculateOverallScore m = Some s \<and> s \<in> {20, 30, 40, 50, 60, 70, 80, 90, 100}"
  using assms by (simp add: calculateOverallScore_def falsy_iff Let_def)

text \<open>
  Claim C2. The score is meant to be defined exactly when all four metrics are present
  and non-null. The guard of the code tests truthiness, so a metric that is present with
  the value \<open>0\<close> (a perfect RMSE) makes the function return \<^verbatim>\<open>null\<close>: at
  \<^verbatim>\<open>{rmse: 0, mae: 1, mape: 1.5, directional_accuracy: 70}\<close> all four metrics are
  non-null and the result is \<^verbatim>\<open>null\<close>.
\<close>

theorem C2_zero_metric_gives_null:
  "calculateOverallScore
     \<lparr>rmse = Some 0, mae = Some 1, mape = Some 1.5, directional_accuracy = Some 70\<rparr> = None"
  by (simp add: calculateOverallScore_def)

text \<open>
  Claim C7. Four finite metrics are meant to give a score in \<open>{20, 30, ..., 100}\<close>. At
  \<^verbatim>\<open>{rmse: 6, mae: 4, mape: 6, directional_accuracy: 0}\<close>, four finite inputs that all
  fall into the 5-point bucket, the code returns \<^verbatim>\<open>null\<close> instead of \<open>20\<close>; with a
  directional accuracy of \<open>1\<close> in place of \<open>0\<close> it returns \<open>20\<close>, and the inputs of the
  end-to-end scenario give \<open>100\<close> and the label Excellent.
\<close>

theorem C7_zero_accuracy_gives_null:
  "calculateOverallScore
     \<lparr>rmse = Some 6, mae = Some 4, mape = Some 6, directional_accuracy = Some 0\<rparr> = None
   \<and> calculateOverallScore
     \<lparr>rmse = Some 6, mae = Some 4, mape = Some 6, directional_accuracy = Some 1\<rparr> = Some 20
   \<and> calculateOverallScore
     \<lparr>rmse = Some 1.5, mae = Some 1, mape = Some 1.5, directional_accuracy = Some 70\<rparr> = Some 100
   \<and> scoreLabel 100 = ''Excellent''"
  by (simp add: calculateOverallScore_def scoreLabel_def)

section \<open>Properties of the JavaScript Map model\<close>

lemma map_set_keys:
  "map fst (map_set k v m) = (if k \<in> fst ` set m then map fst m else map fst m @ [k])"
  by (induction m) force+

lemma map_of_map_set: "map_of (map_set k v m) = (map_of m)(k \<mapsto> v)"
  by (induction m) auto

lemma set_map_set: "set (map_set k v m) \<subseteq> insert (k, v) (set m)"
  by (induction m) (auto split: if_splits)

lemma keyed_map_set: "keyed f m \<Longrightarrow> keyed f (map_set (f x) x m)"
  using set_map_set [of "f x" x m] by (auto simp: keyed_def)

lemma keyed_fold: "keyed f m \<Longrightarrow> keyed f (fold (\<lambda>x. map_set (f x) x) xs m)"
  by (induction xs arbitrary: m) (simp_all add: keyed_map_set)

lemma keyed_keys: "keyed f m \<Longrightarrow> map f (map snd m) = map fst m"
  by (induction m) (auto simp: keyed_def)

lemma fold_set_sorted:
  "sorted_wrt (<) (map fst m) \<Longrightarrow> sorted (map f xs) \<Longrightarrow>
   (\<forall>k \<in> fst ` set m. \<forall>x \<in> set xs. k \<le> f x) \<Longrightarrow>
   sorted_wrt (<) (map fst (fold (\<lambda>x. map_set (f x) x) xs m))"
  for f :: "'v \<Rightarrow> 'k::linorder"
proof (induction xs arbitrary: m)
  case Nil
  then show ?case by simp
next
  case (Cons x xs)
  let ?m = "map_set (f x) x m"
  have keys: "map fst ?m = (if f x \<in> fst ` set m then map fst m else map fst m @ [f x])"
    by (rule map_set_keys)
  have s: "sorted_wrt (<) (map fst ?m)"
  proof (cases "f x \<in> fst ` set m")
    case True
    with keys Cons.prems(1) show ?thesis by simp
  next
    case False
    have "\<forall>k \<in> fst ` set m. k < f x"
    proof
      fix k assume k: "k \<in> fst ` set m"
      with Cons.prems(3) have "k \<le> f x" by auto
      moreover from k False have "k \<noteq> f x" by blast
      ultimately show "k < f x" by simp
    qed
    with keys False Cons.prems(1) show ?thesis
      by (auto simp add: sorted_wrt_append)
  qed
  have b: "\<forall>k \<in> fst ` set ?m. \<forall>y \<in> set xs. k \<le> f y"
  proof (intro ballI)
    fix k y assume k: "k \<in> fst ` set ?m" and y: "y \<in> set xs"
    from k have "k \<in> set (map fst ?m)" by simp
    with keys have "k = f x \<or> k \<in> fst ` set m" by (auto split: if_splits)
    moreover from Cons.prems(2) y have "f x \<le> f y" by simp
    moreover from Cons.prems(3) y have "k \<in> fst ` set m \<Longrightarrow> k \<le> f y" by auto
    ultimately show "k \<le> f y" by auto
  qed
  from Cons.prems(2) have "sorted (map f xs)" by simp
  from Cons.IH [OF s this b] show ?case by simp
qed

lemma map_of_fold_set:
  "map_of (fold (\<lambda>x. map_set (f x) x) xs m) k =
   (case filter (\<lambda>x. f x = k) xs of [] \<Rightarrow> map_of m k | y # ys \<Rightarrow> Some (last (y # ys)))"
proof (induction xs arbitrary: m)
  case Nil
  then show ?case by simp
next
  case (Cons x xs)
  show ?case
    by (simp add: Cons.IH map_of_map_set split: list.splits)
qed

lemma filter_keyed_values:
  "keyed f m \<Longrightarrow> distinct (map fst m) \<Longrightarrow>
   filter (\<lambda>q. f q = k) (map snd m) = (case map_of m k of None \<Rightarrow> [] | Some v \<Rightarrow> [v])"
proof (induction m)
  case Nil
  then show ?case by simp
next
  case (Cons e m)
  obtain k' v' where e: "e = (k', v')" by (cases e)
  from Cons.prems have km: "keyed f m" and fv: "f v' = k'" and d: "distinct (map fst m)"
    and nin: "k' \<notin> fst ` set m"
    by (auto simp: keyed_def e)
  show ?case
  proof (cases "k' = k")
    case True
    with nin have "map_of m k = None" by (simp add: map_of_eq_None_iff)
    with Cons.IH [OF km d] True fv e show ?thesis by simp
  next
    case False
    with Cons.IH [OF km d] fv e show ?thesis by simp
  qed
qed

section \<open>The series normalizer\<close>

lemma timestamp_of_eq_iff: "timestamp_of p = timestamp_of q \<longleftrightarrow> date p = date q"
  by (simp add: timestamp_of_def)

lemma timestamp_of_le_iff: "timestamp_of p \<le> timestamp_of q \<longleftrightarrow> date p \<le> date q"
  by (simp add: timestamp_of_def divide_le_cancel)

lemma sorted_timestamps_sortedData: "sorted (map timestamp_of (sortedData priceData))"
proof -
  have "sorted (map date (sort_key date priceData))" by (rule sorted_sort_key)
  then have "sorted_wrt (\<lambda>p q. date p \<le> date q) (sort_key date priceData)"
    by (simp add: sorted_wrt_map)
  then have "sorted_wrt (\<lambda>p q. timestamp_of p \<le> timestamp_of q) (sort_key date priceData)"
    by (simp add: timestamp_of_le_iff)
  then show ?thesis by (simp add: sortedData_def sorted_wrt_map)
qed

lemma keyed_dataMap: "keyed timestamp_of (dataMap priceData)"
  unfolding dataMap_def by (rule keyed_fold) (simp add: keyed_def)

lemma dataMap_keys_sorted: "sorted_wrt (<) (map fst (dataMap priceData))"
  unfolding dataMap_def
  by (rule fold_set_sorted) (simp_all add: sorted_timestamps_sortedData)

lemma uniqueData_timestamps: "map timestamp_of (uniqueData priceData) = map fst (dataMap priceData)"
  unfolding uniqueData_def map_values_def by (rule keyed_keys [OF keyed_dataMap])

lemma uniqueData_filter:
  "filter (\<lambda>q. timestamp_of q = t) (uniqueData priceData) =
   (case filter (\<lambda>q. timestamp_of q = t) (sortedData priceData) of
      [] \<Rightarrow> [] | y # ys \<Rightarrow> [last (y # ys)])"
proof -
  have d: "distinct (map fst (dataMap priceData))"
    using dataMap_keys_sorted [of priceData] by (simp add: strict_sorted_iff)
  have "filter (\<lambda>q. timestamp_of q = t) (map snd (dataMap priceData)) =
        (case map_of (dataMap priceData) t of None \<Rightarrow> [] | Some v \<Rightarrow> [v])"
    by (rule filter_keyed_values [OF keyed_dataMap d])
  moreover have "map_of (dataMap priceData) t =
        (case filter (\<lambda>q. timestamp_of q = t) (sortedData priceData) of
           [] \<Rightarrow> None | y # ys \<Rightarrow> Some (last (y # ys)))"
    unfolding dataMap_def by (simp add: map_of_fold_set split: list.splits)
  ultimately show ?thesis
    by (simp add: uniqueData_def map_values_def split: list.splits)
qed

lemma sortedData_filter_stable:
  "filter (\<lambda>q. timestamp_of q = timestamp_of p) (sortedData priceData) =
   filter (\<lambda>q. timestamp_of q = timestamp_of p) priceData"
  by (simp add: timestamp_of_eq_iff sortedData_def sort_key_stable)

text \<open>
  Claim C9. For every input (any order, duplicates allowed, possibly empty) the
  timestamps of the normalizer's output are strictly increasing, hence unique; the empty
  input gives the empty output; and for every input point \<open>p\<close> exactly one output point
  carries the timestamp of \<open>p\<close>: the last of the points with that timestamp in the sorted
  data, which (the sort being stable) is the last of them in the input.
\<close>

theorem C9_normalizer:
  "sorted_wrt (<) (map timestamp_of (uniqueData priceData))
   \<and> distinct (map timestamp_of (uniqueData priceData))
   \<and> uniqueData [] = []
   \<and> (\<forall>p \<in> set priceData.
         filter (\<lambda>q. timestamp_of q = timestamp_of p) (uniqueData priceData) =
           [last (filter (\<lambda>q. timestamp_of q = timestamp_of p) (sortedData priceData))]
         \<and> last (filter (\<lambda>q. timestamp_of q = timestamp_of p) (sortedData priceData)) =
           last (filter (\<lambda>q. timestamp_of q = timestamp_of p) priceData))"
proof (intro conjI ballI)
  show s: "sorted_wrt (<) (map timestamp_of (uniqueData priceData))"
    by (simp add: uniqueData_timestamps dataMap_keys_sorted)
  then show "distinct (map timestamp_of (uniqueData priceData))"
    by (simp add: strict_sorted_iff)
  show "uniqueData [] = []"
    by (simp add: uniqueData_def map_values_def dataMap_def sortedData_def)
next
  fix p assume p: "p \<in> set priceData"
  then have "p \<in> set (sortedData priceData)" by (simp add: sortedData_def)
  then have "filter (\<lambda>q. timestamp_of q = timestamp_of p) (sortedData priceData) \<noteq> []"
    by (auto simp: filter_empty_conv)
  then show "filter (\<lambda>q. timestamp_of q = timestamp_of p) (uniqueData priceData) =
           [last (filter (\<lambda>q. timestamp_of q = timestamp_of p) (sortedData priceData))]"
    by (simp add: uniqueData_filter split: list.splits)
  show "last (filter (\<lambda>q. timestamp_of q = timestamp_of p) (sortedData priceData)) =
           last (filter (\<lambda>q. timestamp_of q = timestamp_of p) priceData)"
    by (simp only: sortedData_filter_stable)
qed

text \<open>
  The claim at a concrete input: two bars dated 2000 ms with closes 5 and 7 and one bar
  dated 1000 ms. The bar with close 7 survives at timestamp 2.
\<close>

theorem C9_normalizer_witness:
  "uniqueData [bar 2000 5, bar 1000 1, bar 2000 7] = [bar 1000 1, bar 2000 7]
   \<and> sorted_wrt (<) (map timestamp_of (uniqueData [bar 2000 5, bar 1000 1, bar 2000 7]))
   \<and> filter (\<lambda>q. timestamp_of q = timestamp_of (bar 2000 5))
        (uniqueData [bar 2000 5, bar 1000 1, bar 2000 7]) = [bar 2000 7]"
proof -
  have ev: "sortedData [bar 2000 5, bar 1000 1, bar 2000 7] = [bar 1000 1, bar 2000 5, bar 2000 7]"
    by (simp add: sortedData_def bar_def)
  have u: "uniqueData [bar 2000 5, bar 1000 1, bar 2000 7] = [bar 1000 1, bar 2000 7]"
    by (simp add: uniqueData_def map_values_def dataMap_def ev) (simp add: bar_def timestamp_of_def)
  have m: "bar 2000 5 \<in> set [bar 2000 5, bar 1000 1, bar 2000 7]" by simp
  from C9_normalizer [of "[bar 2000 5, bar 1000 1, bar 2000 7]"] m
  have "filter (\<lambda>q. timestamp_of q = timestamp_of (bar 2000 5))
          (uniqueData [bar 2000 5, bar 1000 1, bar 2000 7]) =
        [last (filter (\<lambda>q. timestamp_of q = timestamp_of (bar 2000 5))
                 (sortedData [bar 2000 5, bar 1000 1, bar 2000 7]))]"
    by blast
  moreover have "last (filter (\<lambda>q. timestamp_of q = timestamp_of (bar 2000 5))
                 (sortedData [bar 2000 5, bar 1000 1, bar 2000 7])) = bar 2000 7"
    by (simp add: ev) (simp add: bar_def timestamp_of_def)
  ultimately show ?thesis
    using C9_normalizer [of "[bar 2000 5, bar 1000 1, bar 2000 7]"] u by simp
qed

section \<open>Portfolio alignment\<close>






lemma uniqueData_nonempty: "priceData \<noteq> [] \<Longrightarrow> uniqueData priceData \<noteq> []"
proof -
  assume "priceData \<noteq> []"
  then obtain p where "p \<in> set priceData" by (cases priceData) auto
  then have "filter (\<lambda>q. timestamp_of q = timestamp_of p) (sortedData priceData) \<noteq> []"
    by (auto simp: filter_empty_conv sortedData_def)
  then have "filter (\<lambda>q. timestamp_of q = timestamp_of p) (uniqueData priceData) \<noteq> []"
    by (simp add: uniqueData_filter split: list.splits)
  then show ?thesis by auto
qed


lemma closestPricePoint_ok: "ud \<noteq> [] \<Longrightarrow> \<exists>c. closestPricePoint d ud = Inr c"
  by (cases ud) (simp_all add: closestPricePoint_def)

lemma portfolioData_ok: "ud \<noteq> [] \<Longrightarrow> \<exists>ps. portfolioData h ud ic = Inr ps"
proof (induction h)
  case Nil
  then show ?case by simp
next
  case (Cons metric rest)
  from Cons.prems obtain c where "closestPricePoint (metric_date metric) ud = Inr c"
    using closestPricePoint_ok by blast
  moreover from Cons obtain ps where "portfolioData rest ud ic = Inr ps" by blast
  ultimately show ?case by simp
qed

lemma portfolioOverlay_no_error: "portfolioOverlay h pd ic \<noteq> Inl e"
proof (cases "h = [] \<or> pd = []")
  case True
  then show ?thesis by (auto simp: portfolioOverlay_def)
next
  case False
  then obtain ps where "portfolioData h (uniqueData pd) ic = Inr ps"
    using portfolioData_ok [OF uniqueData_nonempty] by blast
  with False show ?thesis by (simp add: portfolioOverlay_def)
qed


section \<open>The confidence band\<close>

lemma forecast_time_inj: "forecast_time lt i = forecast_time lt j \<longleftrightarrow> i = j"
  by (simp add: forecast_time_def)

lemma forecast_time_mono: "i \<le> j \<Longrightarrow> forecast_time lt i \<le> forecast_time lt j"
  by (simp add: forecast_time_def)

lemma map_set_fresh: "k \<notin> fst ` set m \<Longrightarrow> map_set k v m = m @ [(k, v)]"
  by (induction m) auto

lemma fold_map_set_upt:
  assumes inj: "\<And>i j. key i = key j \<Longrightarrow> i = j"
  shows "fold (\<lambda>i m. map_set (key i) (f i) m) [0..<n] [] = map (\<lambda>i. (key i, f i)) [0..<n]"
proof (induction n)
  case 0
  then show ?case by simp
next
  case (Suc n)
  have "key n \<notin> fst ` set (map (\<lambda>i. (key i, f i)) [0..<n])"
    using inj by force
  then show ?case
    by (simp add: Suc.IH map_set_fresh)
qed

lemma map_set_present:
  assumes inj: "\<And>i j. key i = key j \<Longrightarrow> i = j"
  shows "distinct js \<Longrightarrow> j \<in> set js \<Longrightarrow>
     map_set (key j) v (map (\<lambda>i. (key i, h i)) js) = map (\<lambda>i. (key i, (h(j := v)) i)) js"
proof (induction js)
  case Nil
  then show ?case by simp
next
  case (Cons a js)
  show ?case
  proof (cases "a = j")
    case True
    with Cons.prems have "j \<notin> set js" by simp
    then have "map (\<lambda>i. (key i, (h(j := v)) i)) js = map (\<lambda>i. (key i, h i)) js"
      by (intro map_cong) auto
    with True show ?thesis by simp
  next
    case False
    with inj have "key a \<noteq> key j" by blast
    with False Cons show ?thesis by simp
  qed
qed

lemma fold_map_set_present:
  assumes inj: "\<And>i j. key i = key j \<Longrightarrow> i = j"
  shows "distinct js \<Longrightarrow> set rs \<subseteq> set js \<Longrightarrow>
     fold (\<lambda>r m. map_set (key r) (g r) m) rs (map (\<lambda>i. (key i, h i)) js) =
     map (\<lambda>i. (key i, (fold (\<lambda>r h. h(r := g r)) rs h) i)) js"
proof (induction rs arbitrary: h)
  case Nil
  then show ?case by simp
next
  case (Cons r rs)
  from Cons.prems have r: "r \<in> set js" and rs: "set rs \<subseteq> set js" by auto
  show ?case
    by (simp add: map_set_present [OF inj Cons.prems(1) r] Cons.IH [OF Cons.prems(1) rs])
qed

lemma fold_fun_upd: "fold (\<lambda>r h. h(r := g r)) rs h i = (if i \<in> set rs then g i else h i)"
  by (induction rs arbitrary: h) auto

lemma reverse_indices: "set (map (\<lambda>index. n - 1 - index) [0..<n]) = {0..<n}"
proof -
  have "\<And>i. i < n \<Longrightarrow> i \<in> (\<lambda>index. n - 1 - index) ` {0..<n}"
  proof -
    fix i assume "i < n"
    then have "i = n - 1 - (n - 1 - i)" "n - 1 - i \<in> {0..<n}" by auto
    then show "i \<in> (\<lambda>index. n - 1 - index) ` {0..<n}" by (rule image_eqI)
  qed
  then show ?thesis by auto
qed

lemma confidenceMap_eq:
  "confidenceMap forecasts lt =
   map (\<lambda>j. (forecast_time lt j,
             \<lparr>time = forecast_time lt j, val = js_nth (confidence_lower forecasts) j\<rparr>))
       [0..<length (predictions forecasts)]"
proof -
  let ?n = "length (predictions forecasts)"
  let ?key = "forecast_time lt"
  let ?up = "\<lambda>i. \<lparr>time = ?key i, val = js_nth (confidence_upper forecasts) i\<rparr>"
  let ?lo = "\<lambda>i. \<lparr>time = ?key i, val = js_nth (confidence_lower forecasts) i\<rparr>"
  let ?rs = "map (\<lambda>index. ?n - 1 - index) [0..<?n]"
  have inj: "\<And>i j. ?key i = ?key j \<Longrightarrow> i = j" by (simp add: forecast_time_inj)
  have up: "fold (\<lambda>i m. map_set (?key i) (?up i) m) [0..<?n] [] = map (\<lambda>i. (?key i, ?up i)) [0..<?n]"
    by (rule fold_map_set_upt [OF inj])
  have "confidenceMap forecasts lt =
        fold (\<lambda>r m. map_set (?key r) (?lo r) m) ?rs (map (\<lambda>i. (?key i, ?up i)) [0..<?n])"
    by (simp add: confidenceMap_def Let_def up fold_map comp_def)
  also have "\<dots> = map (\<lambda>i. (?key i, (fold (\<lambda>r h. h(r := ?lo r)) ?rs ?up) i)) [0..<?n]"
    by (rule fold_map_set_present [OF inj]) (simp_all only: distinct_upt reverse_indices set_upt subset_refl)
  also have "\<dots> = map (\<lambda>i. (?key i, ?lo i)) [0..<?n]"
    by (rule map_cong) (simp_all only: fold_fun_upd reverse_indices set_upt if_True)
  finally show ?thesis .
qed

lemma confidenceData_eq:
  "confidenceData forecasts lt =
   map (\<lambda>j. \<lparr>time = forecast_time lt j, val = js_nth (confidence_lower forecasts) j\<rparr>)
       [0..<length (predictions forecasts)]"
proof -
  let ?pts = "map (\<lambda>j. \<lparr>time = forecast_time lt j, val = js_nth (confidence_lower forecasts) j\<rparr>)
       [0..<length (predictions forecasts)]"
  have "sorted (map time ?pts)"
    by (simp add: comp_def sorted_map sorted_wrt_iff_nth_less forecast_time_mono)
  then have "sort_key time ?pts = ?pts" by (rule sort_key_id_if_sorted)
  then show ?thesis
    by (simp add: confidenceData_def map_values_def confidenceMap_eq comp_def)
qed

lemma confidenceData_length: "length (confidenceData forecasts lt) = length (predictions forecasts)"
  by (simp add: confidenceData_eq)

text \<open>
  Claim C1. A forecast of length \<open>N\<close> is meant to give a band of \<open>2N\<close> points, the upper
  bounds ascending followed by the lower bounds descending. Both halves are written into
  one map keyed by time, so each lower bound replaces the upper bound of its timestamp
  (\<open>confidenceData_eq\<close>: the band is the \<open>N\<close> lower-bound points in ascending time).
  With \<open>N = 2\<close>, upper bounds \<open>[12, 13]\<close> and lower bounds \<open>[8, 9]\<close> after a single bar
  at time \<open>0\<close>, the band handed to the series has two points, with the values \<open>8\<close> and \<open>9\<close>.
\<close>

theorem C1_band_keeps_lower_half_only:
  "forecastOverlay
     (Some \<lparr>predictions = [10, 11], confidence_upper = [12, 13], confidence_lower = [8, 9]\<rparr>)
     [bar 0 10] =
   Inr (Some ([\<lparr>time = 3600, val = 10\<rparr>, \<lparr>time = 7200, val = 11\<rparr>],
              [\<lparr>time = 3600, val = Some 8\<rparr>, \<lparr>time = 7200, val = Some 9\<rparr>]))"
proof -
  have u: "uniqueData [bar 0 10] = [bar 0 10]"
    by (simp add: uniqueData_def map_values_def dataMap_def sortedData_def)
  have lt: "lastTime [bar 0 10] = Inr 0"
    by (simp add: lastTime_def timestamp_of_def bar_def)
  show ?thesis
    by (simp add: forecastOverlay_def u lt forecastData_def confidenceData_def confidenceMap_def
        map_values_def forecast_time_def js_nth_def Let_def)
qed

section \<open>Slices\<close>

lemma length_js_slice:
  "start + period \<le> length xs \<Longrightarrow> length (js_slice xs start (start + period)) = period"
  by (simp add: js_slice_def)

lemma js_slice_nonempty:
  "start + period \<le> length xs \<Longrightarrow> 1 \<le> period \<Longrightarrow> js_slice xs start (start + period) \<noteq> []"
  using length_js_slice [of start period xs] by auto

lemma nth_js_slice:
  "start + period \<le> length xs \<Longrightarrow> j < period \<Longrightarrow>
   js_slice xs start (start + period) ! j = xs ! (start + j)"
  by (simp add: js_slice_def)

lemma set_js_slice: "set (js_slice xs start end) \<subseteq> set xs"
  by (auto simp: js_slice_def dest: in_set_takeD in_set_dropD)

section \<open>Stochastic %K\<close>

lemma stochastic_loop_eq:
  "stochastic_loop highs lows closes period start kValues =
   kValues @ map (k_at highs lows closes period) [start..<Suc (length closes) - period]"
proof (induction highs lows closes period start kValues rule: stochastic_loop.induct)
  case (1 highs lows closes period start kValues)
  show ?case
  proof (cases "start + period \<le> length closes")
    case False
    then show ?thesis by (simp add: stochastic_loop.simps [of highs lows closes period start])
  next
    case True
    from True have upt: "[start..<Suc (length closes) - period] =
        start # [Suc start..<Suc (length closes) - period]"
      by (intro upt_conv_Cons) simp
    have "stochastic_loop highs lows closes period start kValues =
          stochastic_loop highs lows closes period (Suc start)
            (kValues @ [k_at highs lows closes period start])"
      using True
      by (simp add: stochastic_loop.simps [of highs lows closes period start] Let_def k_at_def)
    also have "\<dots> = (kValues @ [k_at highs lows closes period start]) @
        map (k_at highs lows closes period) [Suc start..<Suc (length closes) - period]"
      by (rule "1.IH" [OF True refl refl refl refl refl refl, folded k_at_def])
    finally show ?thesis by (simp add: upt)
  qed
qed

lemma calculateStochastic_eq:
  "calculateStochastic highs lows closes period =
   map (k_at highs lows closes period) [0..<Suc (length closes) - period]"
  by (simp add: calculateStochastic_def stochastic_loop_eq)

lemma math_max_eq: "xs \<noteq> [] \<Longrightarrow> math_max xs = Num (Max (set xs))"
  by (cases xs) (simp_all add: math_max_def Max.set_eq_fold [symmetric])

lemma math_min_eq: "xs \<noteq> [] \<Longrightarrow> math_min xs = Num (Min (set xs))"
  by (cases xs) (simp_all add: math_min_def Min.set_eq_fold [symmetric])

lemma stochastic_k_flat:
  "stochastic_k (Num c) (Num l) (Num l) = (if c = l then NaN else if c > l then PInf else NInf)"
  by (simp add: stochastic_k_def js_sub_def signed_inf_def)

lemma js_get_last_of_window:
  assumes "1 \<le> period" "start + period \<le> length closes"
  shows "js_get (map Num closes) (int start + int period - 1) = Num (closes ! (start + period - 1))"
proof -
  from assms have eq: "int start + int period - 1 = int (start + period - 1)" by linarith
  from assms have lt: "start + period - 1 < length closes" by linarith
  have "js_get (map Num closes) (int (start + period - 1)) = Num (closes ! (start + period - 1))"
    unfolding js_get_def using lt by (simp del: of_nat_diff of_nat_add)
  then show ?thesis by (simp only: eq)
qed

text \<open>
  Claim C4. Whenever a window of \<open>period\<close> bars has its highest high equal to its lowest
  low, the sample computed for that window is the result of a division by zero:
  \<^verbatim>\<open>NaN\<close> or an infinity, never a finite number. Such inputs exist (see the witness).
\<close>

theorem C4_stochastic_flat_window:
  assumes "1 \<le> period"
    and "start + period \<le> length closes"
    and "start + period \<le> length highs"
    and "start + period \<le> length lows"
    and "Max (set (take period (drop start highs))) = Min (set (take period (drop start lows)))"
  shows "start < length (calculateStochastic highs lows closes period)
     \<and> calculateStochastic highs lows closes period ! start \<in> {NaN, PInf, NInf}
     \<and> (\<forall>x. calculateStochastic highs lows closes period ! start \<noteq> Num x)"
proof -
  let ?c = "closes ! (start + period - 1)"
  let ?l = "Min (set (take period (drop start lows)))"
  from assms(2) have len: "start < Suc (length closes) - period" by simp
  have sl: "\<And>xs :: real list. js_slice xs start (start + period) = take period (drop start xs)"
    by (simp add: js_slice_def)
  have "js_slice highs start (start + period) \<noteq> []"
    by (rule js_slice_nonempty [OF assms(3) assms(1)])
  then have "math_max (js_slice highs start (start + period)) =
      Num (Max (set (js_slice highs start (start + period))))"
    by (rule math_max_eq)
  then have hi: "math_max (js_slice highs start (start + period)) =
      Num (Max (set (take period (drop start highs))))"
    by (simp only: sl)
  have "js_slice lows start (start + period) \<noteq> []"
    by (rule js_slice_nonempty [OF assms(4) assms(1)])
  then have "math_min (js_slice lows start (start + period)) =
      Num (Min (set (js_slice lows start (start + period))))"
    by (rule math_min_eq)
  then have lo: "math_min (js_slice lows start (start + period)) = Num ?l"
    by (simp only: sl)
  have cl: "js_get (map Num closes) (int start + int period - 1) = Num ?c"
    by (rule js_get_last_of_window [OF assms(1) assms(2)])
  have "k_at highs lows closes period start = stochastic_k (Num ?c) (Num ?l) (Num ?l)"
    by (simp only: k_at_def hi lo cl assms(5))
  then have k: "k_at highs lows closes period start =
      (if ?c = ?l then NaN else if ?c > ?l then PInf else NInf)"
    by (simp only: stochastic_k_flat)
  have n: "calculateStochastic highs lows closes period ! start =
      k_at highs lows closes period start"
    unfolding calculateStochastic_eq using len by (simp only: nth_map_upt add_0)
  have l: "length (calculateStochastic highs lows closes period) = Suc (length closes) - period"
    unfolding calculateStochastic_eq by (simp only: length_map length_upt diff_zero)
  from n k l len show ?thesis by simp
qed

text \<open>Two flat bars at price \<open>5\<close> with period \<open>2\<close>: the one sample is \<^verbatim>\<open>NaN\<close>.\<close>

theorem C4_stochastic_flat_window_witness:
  "(1::nat) \<le> 2 \<and> 0 + 2 \<le> length [5, 5 :: real]
   \<and> Max (set (take 2 (drop 0 [5, 5 :: real]))) = Min (set (take 2 (drop 0 [5, 5 :: real])))
   \<and> calculateStochastic [5, 5] [5, 5] [5, 5] 2 = [NaN]"
proof -
  have h: "(1::nat) \<le> 2" "0 + 2 \<le> length [5, 5 :: real]" by simp_all
  have flat: "Max (set (take 2 (drop 0 [5, 5 :: real]))) = Min (set (take 2 (drop 0 [5, 5 :: real])))"
    by simp
  have ev: "calculateStochastic [5, 5] [5, 5] [5, 5] 2 = [NaN]"
    by (simp add: calculateStochastic_eq k_at_def js_slice_def math_max_def math_min_def
        js_get_def stochastic_k_def js_sub_def)
  from C4_stochastic_flat_window [OF h(1) h(2) h(2) h(2) flat]
  have "0 < length (calculateStochastic [5, 5] [5, 5] [5, 5] 2)" by (rule conjunct1)
  with ev h flat show ?thesis by (intro conjI)
qed

section \<open>EMA and MACD\<close>

lemma length_ema_loop: "length (ema_loop k prev ps) = length ps"
  by (induction ps arbitrary: prev) (simp_all add: Let_def)

lemma length_calculateEMA: "length (calculateEMA prices period) = max 1 (length prices)"
  by (cases prices) (simp_all add: calculateEMA_def length_ema_loop)

lemma calculateEMA_seed: "prices \<noteq> [] \<Longrightarrow> calculateEMA prices period ! 0 = prices ! 0"
  by (cases prices) (simp_all add: calculateEMA_def)

lemma ema_loop_num: "is_num prev \<Longrightarrow> list_all is_num ps \<Longrightarrow> list_all is_num (ema_loop k prev ps)"
proof (induction ps arbitrary: prev)
  case Nil
  then show ?case by simp
next
  case (Cons p ps)
  from Cons.prems obtain a b where "prev = Num a" "p = Num b"
    by (cases prev; cases p) simp_all
  with Cons show ?case by (simp add: Let_def)
qed

lemma calculateEMA_num:
  "prices \<noteq> [] \<Longrightarrow> list_all is_num prices \<Longrightarrow> list_all is_num (calculateEMA prices period)"
  by (cases prices) (simp_all add: calculateEMA_def ema_loop_num)

lemma length_map_sub: "length (map_sub xs ys) = length xs"
  by (simp add: map_sub_def)

lemma nth_map_sub:
  "i < length xs \<Longrightarrow> i < length ys \<Longrightarrow> map_sub xs ys ! i = js_sub (xs ! i) (ys ! i)"
  by (simp add: map_sub_def js_get_def nth_enumerate_eq)

lemma map_sub_num:
  assumes "list_all is_num xs" "list_all is_num ys" "length ys = length xs"
  shows "list_all is_num (map_sub xs ys)"
proof -
  have "\<forall>i < length (map_sub xs ys). is_num (map_sub xs ys ! i)"
  proof (intro allI impI)
    fix i assume "i < length (map_sub xs ys)"
    then have i: "i < length xs" by (simp add: length_map_sub)
    with assms obtain a b where "xs ! i = Num a" "ys ! i = Num b"
      by (metis is_num.elims(2) list_all_length)
    with i assms(3) show "is_num (map_sub xs ys ! i)"
      by (simp add: nth_map_sub js_sub_def)
  qed
  then show ?thesis by (simp add: list_all_length)
qed

lemma macd_lengths:
  "length (macdLine (calculateMACD prices f s g)) = max 1 (length prices)
   \<and> length (signalLine (calculateMACD prices f s g)) = max 1 (length prices)
   \<and> length (histogram (calculateMACD prices f s g)) = max 1 (length prices)"
  by (simp add: calculateMACD_def Let_def length_map_sub length_calculateEMA)

text \<open>
  Claim C6. For non-empty closes and any period, the EMA has the length of its input and
  starts with the first close; the three MACD outputs have the length of the closes, and
  at every index the histogram is the MACD line minus the signal line (all three finite).
\<close>

theorem C6_ema_macd_lengths:
  assumes "closes \<noteq> []"
  shows "length (calculateEMA (map Num closes) period) = length closes
     \<and> calculateEMA (map Num closes) period ! 0 = Num (closes ! 0)
     \<and> length (macdLine (calculateMACD (map Num closes) fastPeriod slowPeriod signalPeriod))
         = length closes
     \<and> length (signalLine (calculateMACD (map Num closes) fastPeriod slowPeriod signalPeriod))
         = length closes
     \<and> length (histogram (calculateMACD (map Num closes) fastPeriod slowPeriod signalPeriod))
         = length closes
     \<and> (\<forall>i < length closes. \<exists>m s.
           macdLine (calculateMACD (map Num closes) fastPeriod slowPeriod signalPeriod) ! i = Num m
           \<and> signalLine (calculateMACD (map Num closes) fastPeriod slowPeriod signalPeriod) ! i = Num s
           \<and> histogram (calculateMACD (map Num closes) fastPeriod slowPeriod signalPeriod) ! i
               = Num (m - s))"
proof -
  let ?prices = "map Num closes"
  let ?r = "calculateMACD ?prices fastPeriod slowPeriod signalPeriod"
  let ?fast = "calculateEMA ?prices fastPeriod" and ?slow = "calculateEMA ?prices slowPeriod"
  from assms have ne: "?prices \<noteq> []" and n1: "max 1 (length closes) = length closes"
    by (simp_all add: Suc_leI)
  have nums: "list_all is_num ?prices" by (simp add: list_all_iff)
  have m: "macdLine ?r = map_sub ?fast ?slow"
    and sg: "signalLine ?r = calculateEMA (macdLine ?r) signalPeriod"
    and h: "histogram ?r = map_sub (macdLine ?r) (signalLine ?r)"
    by (simp_all add: calculateMACD_def Let_def)
  have lm: "length (macdLine ?r) = length closes" and ls: "length (signalLine ?r) = length closes"
    and lh: "length (histogram ?r) = length closes"
    using macd_lengths [of ?prices fastPeriod slowPeriod signalPeriod] n1 by simp_all
  have mn: "list_all is_num (macdLine ?r)"
    unfolding m
    by (intro map_sub_num calculateEMA_num ne nums) (simp add: length_calculateEMA)
  from lm assms have "macdLine ?r \<noteq> []" by auto
  with mn have sn: "list_all is_num (signalLine ?r)"
    unfolding sg by (intro calculateEMA_num)
  have pt: "\<forall>i < length closes. \<exists>m s. macdLine ?r ! i = Num m \<and> signalLine ?r ! i = Num s
           \<and> histogram ?r ! i = Num (m - s)"
  proof (intro allI impI)
    fix i assume i: "i < length closes"
    with mn sn lm ls obtain a b where ab: "macdLine ?r ! i = Num a" "signalLine ?r ! i = Num b"
      by (metis is_num.elims(2) list_all_length)
    from i lm ls have "histogram ?r ! i = js_sub (macdLine ?r ! i) (signalLine ?r ! i)"
      by (subst h) (simp add: nth_map_sub)
    with ab have "histogram ?r ! i = Num (a - b)" by (simp add: js_sub_def)
    with ab show "\<exists>m s. macdLine ?r ! i = Num m \<and> signalLine ?r ! i = Num s
           \<and> histogram ?r ! i = Num (m - s)" by blast
  qed
  have e: "length (calculateEMA ?prices period) = length closes"
    using n1 by (simp add: length_calculateEMA)
  have e0: "calculateEMA ?prices period ! 0 = Num (closes ! 0)"
    using assms by (simp add: calculateEMA_seed [OF ne] nth_map)
  from e e0 lm ls lh pt show ?thesis by (intro conjI)
qed

text \<open>The claim at the closes \<open>1, 2\<close> with the default periods \<open>12, 26, 9\<close>.\<close>

theorem C6_ema_macd_lengths_witness:
  "[1, 2 :: real] \<noteq> []
   \<and> calculateEMA (map Num [1, 2]) 12 = [Num 1, Num (15 / 13)]
   \<and> length (histogram (calculateMACD (map Num [1, 2]) 12 26 9)) = 2
   \<and> calculateMACD (map Num [1, 2]) 12 26 9 =
       \<lparr>macdLine = [Num 0, Num (28 / 351)], signalLine = [Num 0, Num (28 / 1755)],
        histogram = [Num 0, Num (112 / 1755)]\<rparr>"
proof -
  have h: "[1, 2 :: real] \<noteq> []" by simp
  from C6_ema_macd_lengths [OF h, of 12 12 26 9]
  have len: "length (histogram (calculateMACD (map Num [1, 2]) 12 26 9)) = length [1, 2 :: real]"
    by blast
  have e: "calculateEMA (map Num [1, 2]) 12 = [Num 1, Num (15 / 13)]"
    by (simp add: calculateEMA_def Let_def)
  have e2: "calculateEMA (map Num [1, 2]) 26 = [Num 1, Num (29 / 27)]"
    by (simp add: calculateEMA_def Let_def)
  have m: "map_sub [Num 1, Num (15 / 13)] [Num 1, Num (29 / 27)] = [Num 0, Num (28 / 351)]"
    by (simp add: map_sub_def js_get_def js_sub_def)
  have s: "calculateEMA [Num 0, Num (28 / 351)] 9 = [Num 0, Num (28 / 1755)]"
    by (simp add: calculateEMA_def Let_def)
  have hs: "map_sub [Num 0, Num (28 / 351)] [Num 0, Num (28 / 1755)] = [Num 0, Num (112 / 1755)]"
    by (simp add: map_sub_def js_get_def js_sub_def)
  have r: "calculateMACD (map Num [1, 2]) 12 26 9 =
       \<lparr>macdLine = [Num 0, Num (28 / 351)], signalLine = [Num 0, Num (28 / 1755)],
        histogram = [Num 0, Num (112 / 1755)]\<rparr>"
    unfolding calculateMACD_def Let_def e e2 m s hs by (rule refl)
  from h e len r show ?thesis by simp
qed

section \<open>RSI\<close>

lemma max_double_pos: "100 \<le> max_double"
  by (simp add: max_double_def)

lemma rounding_exact: "rounding exact"
  by (simp add: rounding_def exact_def)

lemma reduce_add_nonempty: "xs \<noteq> [] \<Longrightarrow> reduce_add rnd xs = Inr (js_sum rnd xs)"
  by (cases xs) (simp_all add: reduce_add_def js_sum_def)

lemma rsi_loop_eq:
  "1 \<le> period \<Longrightarrow> length ls = length gs \<Longrightarrow>
   rsi_loop rnd gs ls period start rsiValues =
   Inr (rsiValues @ map (rsi_window rnd gs ls period) [start..<Suc (length gs) - period])"
proof (induction rnd gs ls period start rsiValues rule: rsi_loop.induct)
  case (1 rnd gs ls period start rsiValues)
  show ?case
  proof (cases "start + period \<le> length gs")
    case False
    then show ?thesis by (simp add: rsi_loop.simps [of rnd gs ls period start])
  next
    case True
    let ?g = "js_slice gs start (start + period)"
    let ?l = "js_slice ls start (start + period)"
    from True "1.prems" have g: "reduce_add rnd ?g = Inr (js_sum rnd ?g)"
      by (intro reduce_add_nonempty js_slice_nonempty) simp_all
    from True "1.prems" have l: "reduce_add rnd ?l = Inr (js_sum rnd ?l)"
      by (intro reduce_add_nonempty js_slice_nonempty) simp_all
    from True have upt: "[start..<Suc (length gs) - period] =
        start # [Suc start..<Suc (length gs) - period]"
      by (intro upt_conv_Cons) simp
    have "rsi_loop rnd gs ls period start rsiValues =
        rsi_loop rnd gs ls period (Suc start)
          (rsiValues @ [rsi_window rnd gs ls period start])"
      using True by (simp add: rsi_loop.simps [of rnd gs ls period start] g l rsi_window_def)
    also have "\<dots> = Inr ((rsiValues @ [rsi_window rnd gs ls period start])
         @ map (rsi_window rnd gs ls period) [Suc start..<Suc (length gs) - period])"
      by (rule "1.IH" [OF True g l "1.prems", folded rsi_window_def])
    finally show ?thesis
      by (simp add: upt)
  qed
qed

lemma length_changes: "length (changes rnd xs) = length xs - 1"
  by (induction rnd xs rule: changes.induct) simp_all

lemma nth_changes:
  "Suc i < length xs \<Longrightarrow> changes rnd xs ! i = fl_sub rnd (Num (xs ! Suc i)) (Num (xs ! i))"
proof (induction rnd xs arbitrary: i rule: changes.induct)
  case (1 rnd a b rest)
  then show ?case by (cases i) simp_all
qed simp_all

lemma calculateRSI_eq:
  "1 \<le> period \<Longrightarrow>
   calculateRSI rnd closes period =
   Inr (map (rsi_window rnd (gains rnd closes) (losses rnd closes) period)
          [0..<length closes - period])"
proof -
  assume p: "1 \<le> period"
  have l: "length (losses rnd closes) = length (gains rnd closes)"
    by (simp add: gains_def losses_def)
  have n: "Suc (length (gains rnd closes)) - period = length closes - period"
    using p by (cases closes) (simp_all add: gains_def length_changes)
  show ?thesis
    unfolding calculateRSI_def rsi_loop_eq [OF p l] n by simp
qed

lemma huge_pos: "0 < huge"
  by (simp add: huge_def)

lemma round_huge: "js_round exact huge = Num huge"
  by (simp add: js_round_def exact_def max_double_def huge_def)

lemma round_half_huge: "js_round exact (huge / 2) = Num (huge / 2)"
  by (simp add: js_round_def exact_def max_double_def huge_def)

lemma round_two_huge: "js_round exact (2 * huge) = PInf"
  by (simp add: js_round_def exact_def max_double_def huge_def)

lemma round_minus_two_huge: "js_round exact (- (2 * huge)) = NInf"
  by (simp add: js_round_def exact_def max_double_def huge_def)

lemma round_small: "\<bar>x\<bar> \<le> 100 \<Longrightarrow> js_round exact x = Num x"
  using max_double_pos by (auto simp: js_round_def exact_def)

lemma rsi_overflow_run:
  "calculateRSI exact [0, huge, - huge, huge] 2 = Inr [Num 0, NaN]"
proof -
  have c: "changes exact [0, huge, - huge, huge] = [Num huge, NInf, PInf]"
    by (simp add: fl_sub_def round_huge round_two_huge round_minus_two_huge)
  have g: "gains exact [0, huge, - huge, huge] = [Num huge, Num 0, PInf]"
    unfolding gains_def c using huge_pos by simp
  have l: "losses exact [0, huge, - huge, huge] = [Num 0, PInf, Num 0]"
    unfolding losses_def c using huge_pos by simp
  have w0: "rsi_window exact [Num huge, Num 0, PInf] [Num 0, PInf, Num 0] 2 0 = Num 0"
    by (simp add: rsi_window_def js_slice_def js_sum_def rsi_of_def fl_sub_def signed_inf_def
        round_huge round_half_huge round_small)
  have w1: "rsi_window exact [Num huge, Num 0, PInf] [Num 0, PInf, Num 0] 2 (Suc 0) = NaN"
    by (simp add: rsi_window_def js_slice_def js_sum_def rsi_of_def fl_sub_def signed_inf_def)
  have u: "[0..<length [0, huge, - huge, huge] - 2] = [0, Suc 0]"
    by (simp add: upt_rec)
  show ?thesis
    by (simp only: calculateRSI_eq [of 2, simplified] g l u list.map w0 w1)
qed

lemma rsi_window_avg:
  "rsi_window rnd gs ls period start = rsi_of rnd (avg_at rnd gs period start) (avg_at rnd ls period start)"
  by (simp add: rsi_window_def avg_at_def)

lemma rounding_mono: "rounding rnd \<Longrightarrow> x \<le> y \<Longrightarrow> rnd x \<le> rnd y"
  by (simp add: rounding_def)

lemma rounding_zero: "rounding rnd \<Longrightarrow> rnd 0 = 0"
  by (simp add: rounding_def)

lemma rounding_one: "rounding rnd \<Longrightarrow> rnd 1 = 1"
  by (simp add: rounding_def)

lemma rounding_hundred: "rounding rnd \<Longrightarrow> rnd 100 = 100"
  by (simp add: rounding_def)

lemma rounding_idem: "rounding rnd \<Longrightarrow> rnd (rnd x) = rnd x"
  by (simp add: rounding_def)

lemma max_double_gt0: "0 < max_double"
  using max_double_pos by simp

lemma js_round_zero: "rounding rnd \<Longrightarrow> js_round rnd 0 = Num 0"
  using max_double_gt0 by (simp add: js_round_def rounding_zero)

lemma js_round_one: "rounding rnd \<Longrightarrow> js_round rnd 1 = Num 1"
  using max_double_pos by (simp add: js_round_def rounding_one)

lemma js_round_hundred: "rounding rnd \<Longrightarrow> js_round rnd 100 = Num 100"
  using max_double_pos by (simp add: js_round_def rounding_hundred)

lemma js_round_nonneg:
  assumes "rounding rnd" "0 \<le> x"
  shows "nonneg (js_round rnd x)"
proof -
  from assms have "0 \<le> rnd x"
    using rounding_mono [of rnd 0 x] by (simp add: rounding_zero)
  with max_double_gt0 show ?thesis by (simp add: js_round_def)
qed

lemma js_round_percent:
  assumes "rounding rnd" "0 \<le> x" "x \<le> 100"
  shows "\<exists>v. js_round rnd x = Num v \<and> 0 \<le> v \<and> v \<le> 100"
proof -
  from assms have lo: "0 \<le> rnd x"
    using rounding_mono [of rnd 0 x] by (simp add: rounding_zero)
  from assms have hi: "rnd x \<le> 100"
    using rounding_mono [of rnd x 100] by (simp add: rounding_hundred)
  from lo hi max_double_pos have "js_round rnd x = Num (rnd x)"
    by (simp add: js_round_def)
  with lo hi show ?thesis by blast
qed

lemma js_round_ge_one:
  assumes "rounding rnd" "1 \<le> x"
  shows "js_round rnd x = PInf \<or> (\<exists>v. js_round rnd x = Num v \<and> 1 \<le> v)"
proof -
  from assms have "1 \<le> rnd x"
    using rounding_mono [of rnd 1 x] by (simp add: rounding_one)
  with max_double_gt0 show ?thesis by (simp add: js_round_def)
qed

lemma nonneg_cases: "nonneg v \<Longrightarrow> v = PInf \<or> (\<exists>x. v = Num x \<and> 0 \<le> x)"
  by (cases v) simp_all

lemma fl_add_nonneg:
  assumes "rounding rnd" "nonneg a" "nonneg b"
  shows "nonneg (fl_add rnd a b)"
proof -
  from assms(2) have a: "a = PInf \<or> (\<exists>x. a = Num x \<and> 0 \<le> x)" by (rule nonneg_cases)
  from assms(3) have b: "b = PInf \<or> (\<exists>x. b = Num x \<and> 0 \<le> x)" by (rule nonneg_cases)
  from a b show ?thesis
    using js_round_nonneg [OF assms(1)] by (elim disjE exE conjE) simp_all
qed

lemma foldl_add_nonneg:
  "rounding rnd \<Longrightarrow> nonneg x \<Longrightarrow> \<forall>y \<in> set ys. nonneg y \<Longrightarrow> nonneg (foldl (fl_add rnd) x ys)"
  by (induction ys arbitrary: x) (simp_all add: fl_add_nonneg)

lemma js_sum_nonneg:
  "rounding rnd \<Longrightarrow> xs \<noteq> [] \<Longrightarrow> \<forall>x \<in> set xs. nonneg x \<Longrightarrow> nonneg (js_sum rnd xs)"
  by (cases xs) (simp_all add: js_sum_def foldl_add_nonneg)

lemma js_lt_zero_nonneg: "js_lt (Num 0) c \<Longrightarrow> nonneg c"
  by (cases c) simp_all

lemma js_lt_zero_abs: "js_lt c (Num 0) \<Longrightarrow> nonneg (math_abs c)"
  by (cases c) simp_all

lemma gains_nonneg: "\<forall>g \<in> set (gains rnd prices). nonneg g"
  by (auto simp: gains_def js_lt_zero_nonneg)

lemma losses_nonneg: "\<forall>l \<in> set (losses rnd prices). nonneg l"
  by (auto simp: losses_def js_lt_zero_abs)

lemma fl_div_period_nonneg:
  assumes "rounding rnd" "nonneg a" "1 \<le> period"
  shows "nonneg (fl_div rnd a (Num (real period)))"
proof -
  from assms(2) have "a = PInf \<or> (\<exists>x. a = Num x \<and> 0 \<le> x)" by (rule nonneg_cases)
  then show ?thesis
  proof (elim disjE exE conjE)
    assume "a = PInf"
    then show ?thesis by (simp add: signed_inf_def)
  next
    fix x assume "a = Num x" "0 \<le> x"
    with assms(3) js_round_nonneg [OF assms(1), of "x / real period"] show ?thesis by simp
  qed
qed

lemma avg_at_nonneg:
  assumes "rounding rnd" "1 \<le> period" "start + period \<le> length xs" "\<forall>x \<in> set xs. nonneg x"
  shows "nonneg (avg_at rnd xs period start)"
proof -
  have ne: "js_slice xs start (start + period) \<noteq> []"
    by (rule js_slice_nonempty [OF assms(3) assms(2)])
  have "\<forall>x \<in> set (js_slice xs start (start + period)). nonneg x"
    using set_js_slice [of xs start "start + period"] assms(4) by blast
  with ne have "nonneg (js_sum rnd (js_slice xs start (start + period)))"
    by (intro js_sum_nonneg assms(1))
  then show ?thesis
    unfolding avg_at_def by (intro fl_div_period_nonneg assms)
qed

lemma rsi_of_gain_overflow:
  assumes "rounding rnd" "0 < y"
  shows "rsi_of rnd PInf (Num y) = Num 100"
  using assms js_round_hundred [OF assms(1)]
  by (simp add: rsi_of_def fl_sub_def signed_inf_def)

lemma rsi_of_loss_overflow:
  assumes "rounding rnd"
  shows "rsi_of rnd (Num x) PInf = Num 0"
  using js_round_one [OF assms] js_round_hundred [OF assms] js_round_zero [OF assms]
  by (simp add: rsi_of_def fl_sub_def)

lemma rsi_of_both_overflow: "rsi_of rnd PInf PInf = NaN"
  by (simp add: rsi_of_def fl_sub_def)

lemma rsi_of_finite:
  assumes r: "rounding rnd" and x: "0 \<le> x" and y: "0 \<le> y"
  shows "\<exists>v. rsi_of rnd (Num x) (Num y) = Num v \<and> 0 \<le> v \<and> v \<le> 100"
proof (cases "y = 0")
  case True
  then show ?thesis by (simp add: rsi_of_def)
next
  case False
  with y have ypos: "0 < y" by simp
  with x have q: "0 \<le> x / y" by simp
  let ?rs = "js_round rnd (x / y)"
  have rs: "fl_div rnd (Num x) (Num y) = ?rs" using False by simp
  from js_round_nonneg [OF r q] have "?rs = PInf \<or> (\<exists>q. ?rs = Num q \<and> 0 \<le> q)"
    by (rule nonneg_cases)
  then have den: "fl_add rnd (Num 1) ?rs = PInf \<or> (\<exists>s. fl_add rnd (Num 1) ?rs = Num s \<and> 1 \<le> s)"
  proof (elim disjE exE conjE)
    assume "?rs = PInf"
    then show ?thesis by simp
  next
    fix q assume "?rs = Num q" "0 \<le> q"
    with js_round_ge_one [OF r, of "1 + q"] show ?thesis by simp
  qed
  let ?den = "fl_add rnd (Num 1) ?rs"
  from den have frac: "\<exists>t. fl_div rnd (Num 100) ?den = Num t \<and> 0 \<le> t \<and> t \<le> 100"
  proof (elim disjE exE conjE)
    assume "?den = PInf"
    then show ?thesis by simp
  next
    fix s assume s: "?den = Num s" "1 \<le> s"
    then have "0 \<le> 100 / s" "100 / s \<le> 100"
      by (simp_all add: divide_le_eq)
    from js_round_percent [OF r this] s show ?thesis by simp
  qed
  then obtain t where t: "fl_div rnd (Num 100) ?den = Num t" "0 \<le> t" "t \<le> 100" by blast
  then have "0 \<le> 100 - t" "100 - t \<le> 100" by simp_all
  from js_round_percent [OF r this] obtain v where
    "js_round rnd (100 - t) = Num v" "0 \<le> v" "v \<le> 100" by blast
  with t(1) False rs show ?thesis
    by (simp add: rsi_of_def fl_sub_def Let_def)
qed

lemma rsi_of_range:
  assumes "rounding rnd" "nonneg g" "nonneg l"
  shows "(rsi_of rnd g l = NaN \<and> g = PInf \<and> l = PInf)
       \<or> (\<exists>v. rsi_of rnd g l = Num v \<and> 0 \<le> v \<and> v \<le> 100)"
proof -
  from assms(2) have g: "g = PInf \<or> (\<exists>x. g = Num x \<and> 0 \<le> x)" by (rule nonneg_cases)
  from assms(3) have l: "l = PInf \<or> (\<exists>y. l = Num y \<and> 0 \<le> y)" by (rule nonneg_cases)
  from g l show ?thesis
  proof (elim disjE exE conjE)
    assume "g = PInf" "l = PInf"
    then show ?thesis by (simp add: rsi_of_both_overflow)
  next
    fix y assume "g = PInf" "l = Num y" "0 \<le> y"
    then show ?thesis
      using rsi_of_gain_overflow [OF assms(1), of y] by (cases "y = 0") (simp_all add: rsi_of_def)
  next
    fix x assume "g = Num x" "l = PInf"
    then show ?thesis by (simp add: rsi_of_loss_overflow [OF assms(1)])
  next
    fix x y assume "g = Num x" "0 \<le> x" "l = Num y" "0 \<le> y"
    then show ?thesis using rsi_of_finite [OF assms(1), of x y] by simp
  qed
qed

lemma foldl_add_zeros:
  "rounding rnd \<Longrightarrow> \<forall>y \<in> set ys. y = Num 0 \<Longrightarrow> foldl (fl_add rnd) (Num 0) ys = Num 0"
  by (induction ys) (simp_all add: js_round_zero)

lemma js_sum_zeros:
  "rounding rnd \<Longrightarrow> xs \<noteq> [] \<Longrightarrow> \<forall>x \<in> set xs. x = Num 0 \<Longrightarrow> js_sum rnd xs = Num 0"
  by (cases xs) (simp_all add: js_sum_def foldl_add_zeros)

lemma loss_of_rise:
  assumes "rounding rnd" "a \<le> b"
  shows "\<not> js_lt (fl_sub rnd (Num b) (Num a)) (Num 0)"
proof -
  from assms(2) have "0 \<le> b + - a" by simp
  from js_round_nonneg [OF assms(1) this] have "nonneg (fl_sub rnd (Num b) (Num a))"
    by (simp add: fl_sub_def)
  then show ?thesis by (cases "fl_sub rnd (Num b) (Num a)") simp_all
qed

lemma nth_losses:
  "Suc i < length closes \<Longrightarrow>
   losses rnd closes ! i =
     (if js_lt (fl_sub rnd (Num (closes ! Suc i)) (Num (closes ! i))) (Num 0)
      then math_abs (fl_sub rnd (Num (closes ! Suc i)) (Num (closes ! i))) else Num 0)"
  by (simp add: losses_def length_changes nth_changes)

lemma avg_loss_zero:
  assumes r: "rounding rnd" and p: "1 \<le> period"
    and len: "start + period \<le> length (losses rnd closes)"
    and up: "\<forall>i. start \<le> i \<and> i < start + period \<longrightarrow> closes ! i \<le> closes ! Suc i"
  shows "avg_at rnd (losses rnd closes) period start = Num 0"
proof -
  let ?l = "js_slice (losses rnd closes) start (start + period)"
  have ll: "length (losses rnd closes) = length closes - 1"
    by (simp add: losses_def length_changes)
  have zeros: "\<forall>x \<in> set ?l. x = Num 0"
  proof
    fix x assume "x \<in> set ?l"
    then obtain j where j: "j < length ?l" and x: "x = ?l ! j"
      by (auto simp: in_set_conv_nth)
    from j len have jp: "j < period" by (simp add: length_js_slice)
    with len x have x': "x = losses rnd closes ! (start + j)" by (simp add: nth_js_slice)
    from jp len ll have s: "Suc (start + j) < length closes" by simp
    from jp up have "closes ! (start + j) \<le> closes ! Suc (start + j)" by simp
    from loss_of_rise [OF r this] x' s show "x = Num 0"
      by (simp add: nth_losses)
  qed
  have "?l \<noteq> []" by (rule js_slice_nonempty [OF len p])
  with zeros have "js_sum rnd ?l = Num 0" by (intro js_sum_zeros r)
  with p show ?thesis by (simp add: avg_at_def js_round_zero [OF r])
qed

text \<open>A run with a gain and a loss in the window: the closes \<open>1, 3, 2\<close> with period \<open>2\<close>.\<close>

lemma rsi_mixed_run: "calculateRSI exact [1, 3, 2] 2 = Inr [Num (200 / 3)]"
proof -
  have g: "gains exact [1, 3, 2] = [Num 2, Num 0]"
    by (simp add: gains_def fl_sub_def round_small)
  have l: "losses exact [1, 3, 2] = [Num 0, Num 1]"
    by (simp add: losses_def fl_sub_def round_small)
  have w: "rsi_window exact [Num 2, Num 0] [Num 0, Num 1] 2 0 = Num (200 / 3)"
    by (simp add: rsi_window_def js_slice_def js_sum_def rsi_of_def fl_sub_def round_small)
  have u: "[0..<length [1, 3, 2 :: real] - 2] = [0]"
    by (simp add: upt_rec)
  show ?thesis
    by (simp only: calculateRSI_eq [of 2, simplified] g l u list.map w)
qed

text \<open>
  Claim C5 as stated fails where the arithmetic overflows. For the closes
  \<open>0, 2^1023, -2^1023, 2^1023\<close> (finite doubles) and period \<open>2\<close>, the second and third
  change are \<open>-\<infinity>\<close> and \<open>+\<infinity>\<close>; in the second window the sum of the gains and the sum
  of the losses are both \<open>+\<infinity>\<close>, their quotient is \<^verbatim>\<open>NaN\<close>, and so is the value pushed.
  Every operation of this run is exact, so the rounding plays no part in it.
\<close>

theorem C5_rsi_overflow_counterexample:
  "2 < length [0, 2 ^ 1023, - (2 ^ 1023), 2 ^ 1023 :: real]
   \<and> calculateRSI exact [0, 2 ^ 1023, - (2 ^ 1023), 2 ^ 1023] 2 = Inr [Num 0, NaN]"
  using rsi_overflow_run by (simp add: huge_def)

text \<open>
  Claim C5, amended. For every rounding, a period of at least one and more closes than
  the period, the RSI returns (it does not throw) \<open>length closes - period\<close> values. Each
  of them is a number in the closed interval from \<open>0\<close> to \<open>100\<close>, or it is \<^verbatim>\<open>NaN\<close>, and
  then the average gain and the average loss of its window are both \<open>+\<infinity>\<close>. The value
  of a window over which no close falls below its predecessor (all losses zero, so
  \<open>avgLoss = 0\<close>) is exactly \<open>100\<close>.
\<close>

theorem C5_rsi_bounds:
  assumes "rounding rnd" and "1 \<le> period" and "period < length closes"
  shows "\<exists>out. calculateRSI rnd closes period = Inr out
          \<and> length out = length closes - period
          \<and> (\<forall>j < length out.
                (out ! j = NaN
                   \<and> avg_at rnd (gains rnd closes) period j = PInf
                   \<and> avg_at rnd (losses rnd closes) period j = PInf)
                \<or> (\<exists>v. out ! j = Num v \<and> 0 \<le> v \<and> v \<le> 100))
          \<and> (\<forall>j < length out.
                (\<forall>i. j \<le> i \<and> i < j + period \<longrightarrow> closes ! i \<le> closes ! Suc i)
                \<longrightarrow> out ! j = Num 100)"
proof -
  let ?gs = "gains rnd closes" and ?ls = "losses rnd closes"
  let ?out = "map (rsi_window rnd ?gs ?ls period) [0..<length closes - period]"
  have lg: "length ?gs = length closes - 1" and ll: "length ?ls = length closes - 1"
    by (simp_all add: gains_def losses_def length_changes)
  have run: "calculateRSI rnd closes period = Inr ?out"
    by (rule calculateRSI_eq [OF assms(2)])
  have len: "length ?out = length closes - period" by simp
  have range: "\<forall>j < length ?out.
                (?out ! j = NaN \<and> avg_at rnd ?gs period j = PInf \<and> avg_at rnd ?ls period j = PInf)
                \<or> (\<exists>v. ?out ! j = Num v \<and> 0 \<le> v \<and> v \<le> 100)"
  proof (intro allI impI)
    fix j assume "j < length ?out"
    then have j: "j < length closes - period" by simp
    with lg ll have jg: "j + period \<le> length ?gs" and jl: "j + period \<le> length ?ls" by simp_all
    have g: "nonneg (avg_at rnd ?gs period j)"
      by (rule avg_at_nonneg [OF assms(1,2) jg gains_nonneg])
    have l: "nonneg (avg_at rnd ?ls period j)"
      by (rule avg_at_nonneg [OF assms(1,2) jl losses_nonneg])
    from rsi_of_range [OF assms(1) g l] j
    show "(?out ! j = NaN \<and> avg_at rnd ?gs period j = PInf \<and> avg_at rnd ?ls period j = PInf)
                \<or> (\<exists>v. ?out ! j = Num v \<and> 0 \<le> v \<and> v \<le> 100)"
      by (simp add: rsi_window_avg)
  qed
  have flat: "\<forall>j < length ?out.
                (\<forall>i. j \<le> i \<and> i < j + period \<longrightarrow> closes ! i \<le> closes ! Suc i)
                \<longrightarrow> ?out ! j = Num 100"
  proof (intro allI impI)
    fix j assume "j < length ?out"
      and up: "\<forall>i. j \<le> i \<and> i < j + period \<longrightarrow> closes ! i \<le> closes ! Suc i"
    then have j: "j < length closes - period" by simp
    with ll have jl: "j + period \<le> length ?ls" by simp
    from avg_loss_zero [OF assms(1,2) jl up] j show "?out ! j = Num 100"
      by (simp add: rsi_window_avg rsi_of_def)
  qed
  from run len range flat show ?thesis by blast
qed

text \<open>The amended claim at the rising closes \<open>1, 2, 3\<close> with period \<open>2\<close>: the one value is \<open>100\<close>.\<close>

theorem C5_rsi_bounds_witness:
  "rounding exact \<and> (1::nat) \<le> 2 \<and> 2 < length [1, 2, 3 :: real]
   \<and> calculateRSI exact [1, 2, 3] 2 = Inr [Num 100]"
proof -
  have h: "rounding exact" "(1::nat) \<le> 2" "2 < length [1, 2, 3 :: real]"
    by (simp_all add: rounding_exact)
  from C5_rsi_bounds [OF h] obtain out where
    run: "calculateRSI exact [1, 2, 3] 2 = Inr out" and len: "length out = length [1, 2, 3 :: real] - 2"
    and flat: "\<forall>j < length out.
                (\<forall>i. j \<le> i \<and> i < j + 2 \<longrightarrow> [1, 2, 3 :: real] ! i \<le> [1, 2, 3] ! Suc i)
                \<longrightarrow> out ! j = Num 100"
    by blast
  from len have l1: "length out = 1" by simp
  have "\<forall>i. 0 \<le> i \<and> i < 0 + 2 \<longrightarrow> [1, 2, 3 :: real] ! i \<le> [1, 2, 3] ! Suc i"
    by (auto simp: less_Suc_eq numeral_2_eq_2)
  with flat l1 have "out ! 0 = Num 100" by simp
  with l1 have "out = [Num 100]" by (cases out) simp_all
  with run h show ?thesis by simp
qed

section \<open>Bollinger Bands\<close>

lemma bollinger_loop_eq:
  "1 \<le> period \<Longrightarrow>
   bollinger_loop rnd prices period stdDev start bands =
   Inr \<lparr>sma = sma bands @ map (mean_at rnd prices period) [start..<Suc (length prices) - period],
        upperBand = upperBand bands @
          map (\<lambda>s. fl_add rnd (mean_at rnd prices period s)
                     (fl_mul rnd (sd_at rnd prices period s) (Num stdDev)))
            [start..<Suc (length prices) - period],
        lowerBand = lowerBand bands @
          map (\<lambda>s. fl_sub rnd (mean_at rnd prices period s)
                     (fl_mul rnd (sd_at rnd prices period s) (Num stdDev)))
            [start..<Suc (length prices) - period]\<rparr>"
proof (induction rnd prices period stdDev start bands rule: bollinger_loop.induct)
  case (1 rnd prices period stdDev start bands)
  show ?case
  proof (cases "start + period \<le> length prices")
    case False
    then show ?thesis by (simp add: bollinger_loop.simps [of rnd prices period stdDev start])
  next
    case True
    let ?slice = "js_slice (map Num prices) start (start + period)"
    from True "1.prems" have r: "reduce_add rnd ?slice = Inr (js_sum rnd ?slice)"
      by (intro reduce_add_nonempty js_slice_nonempty) simp_all
    from True have upt: "[start..<Suc (length prices) - period] =
        start # [Suc start..<Suc (length prices) - period]"
      by (intro upt_conv_Cons) simp
    let ?mean = "mean_at rnd prices period start"
    let ?sd = "sd_at rnd prices period start"
    let ?bands = "\<lparr>sma = sma bands @ [?mean],
        upperBand = upperBand bands @ [fl_add rnd ?mean (fl_mul rnd ?sd (Num stdDev))],
        lowerBand = lowerBand bands @ [fl_sub rnd ?mean (fl_mul rnd ?sd (Num stdDev))]\<rparr>"
    have step: "bollinger_loop rnd prices period stdDev start bands =
          bollinger_loop rnd prices period stdDev (Suc start) ?bands"
      using True
      by (simp add: bollinger_loop.simps [of rnd prices period stdDev start] r Let_def
          mean_at_def sd_at_def)
    have ih: "bollinger_loop rnd prices period stdDev (Suc start) ?bands =
       Inr \<lparr>sma = sma ?bands @ map (mean_at rnd prices period) [Suc start..<Suc (length prices) - period],
        upperBand = upperBand ?bands @
          map (\<lambda>s. fl_add rnd (mean_at rnd prices period s)
                     (fl_mul rnd (sd_at rnd prices period s) (Num stdDev)))
            [Suc start..<Suc (length prices) - period],
        lowerBand = lowerBand ?bands @
          map (\<lambda>s. fl_sub rnd (mean_at rnd prices period s)
                     (fl_mul rnd (sd_at rnd prices period s) (Num stdDev)))
            [Suc start..<Suc (length prices) - period]\<rparr>"
      using "1.IH" [OF True refl r refl refl refl "1.prems"]
      by (simp add: mean_at_def sd_at_def)
    show ?thesis
      unfolding step ih by (simp add: upt)
  qed
qed

lemma calculateBollingerBands_eq:
  "1 \<le> period \<Longrightarrow>
   calculateBollingerBands rnd closes period stdDev =
   Inr \<lparr>sma = map (mean_at rnd closes period) [0..<Suc (length closes) - period],
        upperBand =
          map (\<lambda>s. fl_add rnd (mean_at rnd closes period s)
                     (fl_mul rnd (sd_at rnd closes period s) (Num stdDev)))
            [0..<Suc (length closes) - period],
        lowerBand =
          map (\<lambda>s. fl_sub rnd (mean_at rnd closes period s)
                     (fl_mul rnd (sd_at rnd closes period s) (Num stdDev)))
            [0..<Suc (length closes) - period]\<rparr>"
  by (simp add: calculateBollingerBands_def bollinger_loop_eq)

lemma js_round_Num: "js_round rnd x = Num m \<Longrightarrow> m = rnd x \<and> - max_double \<le> m \<and> m \<le> max_double"
  by (auto simp: js_round_def split: if_splits)

lemma js_round_not_nan: "not_nan (js_round rnd x)"
  by (simp add: js_round_def)

lemma fl_div_Num:
  assumes "rounding rnd" "b \<noteq> 0" "fl_div rnd a (Num b) = Num m"
  shows "rnd m = m \<and> - max_double \<le> m \<and> m \<le> max_double"
proof (cases a)
  case (Num x)
  with assms(2,3) have "js_round rnd (x / b) = Num m" by simp
  from js_round_Num [OF this] rounding_idem [OF assms(1)] show ?thesis by simp
qed (use assms in \<open>simp_all add: signed_inf_def split: if_splits\<close>)

lemma pow2_nonneg:
  assumes "rounding rnd" "not_nan d"
  shows "nonneg (math_pow2 rnd d)"
  using assms js_round_nonneg [OF assms(1), of "x * x" for x]
  by (cases d) (simp_all add: math_pow2_def)

lemma fl_sub_Num_not_nan: "not_nan (fl_sub rnd (Num b) (Num m))"
  by (simp add: fl_sub_def js_round_not_nan)

lemma foldl_squares_nonneg:
  assumes "rounding rnd"
  shows "nonneg a \<Longrightarrow>
     nonneg (foldl (\<lambda>a b. fl_add rnd a (math_pow2 rnd (fl_sub rnd b (Num m)))) a (map Num w))"
proof (induction w arbitrary: a)
  case Nil
  then show ?case by simp
next
  case (Cons x w)
  have "nonneg (fl_add rnd a (math_pow2 rnd (fl_sub rnd (Num x) (Num m))))"
    by (intro fl_add_nonneg pow2_nonneg assms Cons.prems fl_sub_Num_not_nan)
  from Cons.IH [OF this] show ?case by simp
qed

lemma variance_nonneg:
  assumes "rounding rnd" "1 \<le> period"
  shows "nonneg (variance_of rnd (map Num w) (Num m) period)"
  unfolding variance_of_def
  by (intro fl_div_period_nonneg foldl_squares_nonneg assms) simp

lemma sqrt_nonneg:
  assumes "rounding rnd" "nonneg v"
  shows "nonneg (math_sqrt rnd v)"
proof -
  from assms(2) have "v = PInf \<or> (\<exists>x. v = Num x \<and> 0 \<le> x)" by (rule nonneg_cases)
  then show ?thesis
    using js_round_nonneg [OF assms(1)] by (elim disjE exE conjE) simp_all
qed

lemma spread_nonneg:
  assumes "rounding rnd" "nonneg sd" "0 \<le> k" "is_num sd \<or> 0 < k"
  shows "nonneg (fl_mul rnd sd (Num k))"
proof -
  from assms(2) have "sd = PInf \<or> (\<exists>s. sd = Num s \<and> 0 \<le> s)" by (rule nonneg_cases)
  then show ?thesis
  proof (elim disjE exE conjE)
    assume "sd = PInf"
    with assms(4) show ?thesis by (simp add: signed_inf_def)
  next
    fix s assume "sd = Num s" "0 \<le> s"
    with assms(3) js_round_nonneg [OF assms(1), of "s * k"] show ?thesis by simp
  qed
qed

lemma band_order:
  assumes r: "rounding rnd" and m: "rnd m = m" "- max_double \<le> m" "m \<le> max_double"
    and t: "nonneg t"
  shows "js_le (fl_sub rnd (Num m) t) (Num m) \<and> js_le (Num m) (fl_add rnd (Num m) t)"
proof -
  from t have "t = PInf \<or> (\<exists>x. t = Num x \<and> 0 \<le> x)" by (rule nonneg_cases)
  then show ?thesis
  proof (elim disjE exE conjE)
    assume "t = PInf"
    then show ?thesis by (simp add: fl_sub_def)
  next
    fix x assume x: "t = Num x" "0 \<le> x"
    have up: "m \<le> rnd (m + x)" using rounding_mono [OF r, of m "m + x"] x m(1) by simp
    have lo: "rnd (m + - x) \<le> m" using rounding_mono [OF r, of "m + - x" m] x m(1) by simp
    from up m(2) have "js_le (Num m) (js_round rnd (m + x))"
      by (simp add: js_round_def)
    moreover from lo m(3) have "js_le (js_round rnd (m + - x)) (Num m)"
      by (simp add: js_round_def)
    ultimately show ?thesis using x by (simp add: fl_sub_def)
  qed
qed

lemma window_slice:
  "js_slice (map Num closes) j (j + period) = map Num (take period (drop j closes))"
  by (simp add: js_slice_def take_map drop_map)

lemma bollinger_overflow_run:
  "calculateBollingerBands exact [huge, huge] 2 2 =
   Inr \<lparr>sma = [PInf], upperBand = [PInf], lowerBand = [NaN]\<rparr>"
proof -
  have m: "mean_at exact [huge, huge] 2 0 = PInf"
    by (simp add: mean_at_def js_slice_def js_sum_def round_two_huge signed_inf_def)
  have s: "sd_at exact [huge, huge] 2 0 = PInf"
    unfolding sd_at_def m
    by (simp add: js_slice_def variance_of_def math_pow2_def fl_sub_def signed_inf_def)
  have u: "[0..<Suc (length [huge, huge]) - 2] = [0]"
    by (simp add: upt_rec)
  show ?thesis
    unfolding calculateBollingerBands_eq [of 2, simplified] u
    by (simp add: m s fl_sub_def signed_inf_def)
qed

text \<open>
  Claim C8 as stated fails where the window sum overflows. For the closes
  \<open>2^1023, 2^1023\<close> with period \<open>2\<close> and multiplier \<open>2\<close> the sum is \<open>+\<infinity>\<close>, so the middle
  is \<open>+\<infinity>\<close> and not the mean \<open>2^1023\<close>, and the lower band is \<open>\<infinity> - \<infinity>\<close>, which is
  \<^verbatim>\<open>NaN\<close> and compares below nothing.
\<close>

theorem C8_bollinger_overflow_counterexample:
  "2 \<le> length [2 ^ 1023, 2 ^ 1023 :: real]
   \<and> calculateBollingerBands exact [2 ^ 1023, 2 ^ 1023] 2 2 =
       Inr \<lparr>sma = [PInf], upperBand = [PInf], lowerBand = [NaN]\<rparr>
   \<and> \<not> js_le NaN PInf"
  using bollinger_overflow_run by (simp add: huge_def)

text \<open>
  Claim C8, amended. For every rounding, a period of at least one, at least that many
  closes and a multiplier that is not negative, the three bands have
  \<open>length closes - period + 1\<close> samples each. Sample \<open>j\<close> is computed from the window
  \<open>closes[j .. j + period - 1]\<close> in double arithmetic: its middle is the sum of the window
  divided by the period, its upper and lower value are the middle plus and minus the
  multiplier times the square root of the mean squared deviation from the middle
  (divisor \<open>period\<close>). Where the middle is finite (and, for a multiplier of \<open>0\<close>, the
  standard deviation too), \<open>lower \<le> middle \<le> upper\<close> holds.
\<close>

theorem C8_bollinger:
  assumes "rounding rnd" and "1 \<le> period" and "period \<le> length closes" and "0 \<le> stdDev"
  shows "\<exists>b. calculateBollingerBands rnd closes period stdDev = Inr b
          \<and> length (sma b) = length closes - period + 1
          \<and> length (upperBand b) = length closes - period + 1
          \<and> length (lowerBand b) = length closes - period + 1
          \<and> (\<forall>j < length closes - period + 1.
                (let w = map Num (take period (drop j closes));
                     mean = fl_div rnd (js_sum rnd w) (Num (real period));
                     sd = math_sqrt rnd (variance_of rnd w mean period)
                 in sma b ! j = mean
                    \<and> upperBand b ! j = fl_add rnd mean (fl_mul rnd sd (Num stdDev))
                    \<and> lowerBand b ! j = fl_sub rnd mean (fl_mul rnd sd (Num stdDev))
                    \<and> (is_num mean \<and> (is_num sd \<or> 0 < stdDev)
                        \<longrightarrow> js_le (lowerBand b ! j) (sma b ! j)
                            \<and> js_le (sma b ! j) (upperBand b ! j))))"
proof -
  let ?n = "Suc (length closes) - period"
  let ?up = "\<lambda>s. fl_add rnd (mean_at rnd closes period s)
                     (fl_mul rnd (sd_at rnd closes period s) (Num stdDev))"
  let ?lo = "\<lambda>s. fl_sub rnd (mean_at rnd closes period s)
                     (fl_mul rnd (sd_at rnd closes period s) (Num stdDev))"
  let ?b = "\<lparr>sma = map (mean_at rnd closes period) [0..<?n],
        upperBand = map ?up [0..<?n], lowerBand = map ?lo [0..<?n]\<rparr>"
  have run: "calculateBollingerBands rnd closes period stdDev = Inr ?b"
    by (rule calculateBollingerBands_eq [OF assms(2)])
  from assms have n: "?n = length closes - period + 1" by simp
  from assms(2) have p0: "real period \<noteq> 0" by simp
  have vals: "\<forall>j < length closes - period + 1.
                (let w = map Num (take period (drop j closes));
                     mean = fl_div rnd (js_sum rnd w) (Num (real period));
                     sd = math_sqrt rnd (variance_of rnd w mean period)
                 in sma ?b ! j = mean
                    \<and> upperBand ?b ! j = fl_add rnd mean (fl_mul rnd sd (Num stdDev))
                    \<and> lowerBand ?b ! j = fl_sub rnd mean (fl_mul rnd sd (Num stdDev))
                    \<and> (is_num mean \<and> (is_num sd \<or> 0 < stdDev)
                        \<longrightarrow> js_le (lowerBand ?b ! j) (sma ?b ! j)
                            \<and> js_le (sma ?b ! j) (upperBand ?b ! j)))"
  proof (intro allI impI)
    fix j assume "j < length closes - period + 1"
    with n have j: "j < ?n" by simp
    let ?w = "map Num (take period (drop j closes))"
    let ?mean = "fl_div rnd (js_sum rnd ?w) (Num (real period))"
    let ?sd = "math_sqrt rnd (variance_of rnd ?w ?mean period)"
    have me: "mean_at rnd closes period j = ?mean"
      by (simp add: mean_at_def window_slice)
    have se: "sd_at rnd closes period j = ?sd"
      by (simp add: sd_at_def mean_at_def window_slice)
    have a: "sma ?b ! j = ?mean" using j by (simp add: me del: upt_Suc)
    have u: "upperBand ?b ! j = fl_add rnd ?mean (fl_mul rnd ?sd (Num stdDev))"
      using j by (simp add: me se del: upt_Suc)
    have l: "lowerBand ?b ! j = fl_sub rnd ?mean (fl_mul rnd ?sd (Num stdDev))"
      using j by (simp add: me se del: upt_Suc)
    have ord: "is_num ?mean \<and> (is_num ?sd \<or> 0 < stdDev)
        \<longrightarrow> js_le (fl_sub rnd ?mean (fl_mul rnd ?sd (Num stdDev))) ?mean
            \<and> js_le ?mean (fl_add rnd ?mean (fl_mul rnd ?sd (Num stdDev)))"
    proof
      assume fin: "is_num ?mean \<and> (is_num ?sd \<or> 0 < stdDev)"
      then obtain m where m: "?mean = Num m" by (cases ?mean) simp_all
      from fl_div_Num [OF assms(1) p0 m]
      have mf: "rnd m = m" "- max_double \<le> m" "m \<le> max_double" by simp_all
      have "nonneg (variance_of rnd ?w (Num m) period)"
        by (rule variance_nonneg [OF assms(1,2)])
      then have "nonneg ?sd" unfolding m by (rule sqrt_nonneg [OF assms(1)])
      with fin have "nonneg (fl_mul rnd ?sd (Num stdDev))"
        by (intro spread_nonneg assms) simp_all
      from band_order [OF assms(1) mf this] show
        "js_le (fl_sub rnd ?mean (fl_mul rnd ?sd (Num stdDev))) ?mean
            \<and> js_le ?mean (fl_add rnd ?mean (fl_mul rnd ?sd (Num stdDev)))"
        unfolding m .
    qed
    show "(let w = map Num (take period (drop j closes));
                     mean = fl_div rnd (js_sum rnd w) (Num (real period));
                     sd = math_sqrt rnd (variance_of rnd w mean period)
                 in sma ?b ! j = mean
                    \<and> upperBand ?b ! j = fl_add rnd mean (fl_mul rnd sd (Num stdDev))
                    \<and> lowerBand ?b ! j = fl_sub rnd mean (fl_mul rnd sd (Num stdDev))
                    \<and> (is_num mean \<and> (is_num sd \<or> 0 < stdDev)
                        \<longrightarrow> js_le (lowerBand ?b ! j) (sma ?b ! j)
                            \<and> js_le (sma ?b ! j) (upperBand ?b ! j)))"
      unfolding Let_def a u l using ord by simp
  qed
  have lens: "length (sma ?b) = length closes - period + 1"
    "length (upperBand ?b) = length closes - period + 1"
    "length (lowerBand ?b) = length closes - period + 1"
    using n by simp_all
  from run lens vals show ?thesis by blast
qed

text \<open>The amended claim at the closes \<open>1, 3\<close> with period \<open>2\<close> and multiplier \<open>2\<close>.\<close>

theorem C8_bollinger_witness:
  "rounding exact \<and> (1::nat) \<le> 2 \<and> 2 \<le> length [1, 3 :: real] \<and> (0::real) \<le> 2
   \<and> calculateBollingerBands exact [1, 3] 2 2 =
       Inr \<lparr>sma = [Num 2], upperBand = [Num 4], lowerBand = [Num 0]\<rparr>
   \<and> js_le (Num 0) (Num 2) \<and> js_le (Num 2) (Num 4)"
proof -
  have h: "rounding exact" "(1::nat) \<le> 2" "2 \<le> length [1, 3 :: real]" "(0::real) \<le> 2"
    by (simp_all add: rounding_exact)
  have mean: "fl_div exact (js_sum exact [Num 1, Num 3]) (Num 2) = Num 2"
    by (simp add: js_sum_def round_small)
  have sd: "math_sqrt exact (variance_of exact [Num 1, Num 3] (Num 2) 2) = Num 1"
    by (simp add: variance_of_def math_pow2_def fl_sub_def round_small)
  from C8_bollinger [OF h] obtain b where
    run: "calculateBollingerBands exact [1, 3] 2 2 = Inr b"
    and len: "length (sma b) = length [1, 3 :: real] - 2 + 1"
      "length (upperBand b) = length [1, 3 :: real] - 2 + 1"
      "length (lowerBand b) = length [1, 3 :: real] - 2 + 1"
    and vals: "\<forall>j < length [1, 3 :: real] - 2 + 1.
                (let w = map Num (take 2 (drop j [1, 3]));
                     mean = fl_div exact (js_sum exact w) (Num (real 2));
                     sd = math_sqrt exact (variance_of exact w mean 2)
                 in sma b ! j = mean
                    \<and> upperBand b ! j = fl_add exact mean (fl_mul exact sd (Num 2))
                    \<and> lowerBand b ! j = fl_sub exact mean (fl_mul exact sd (Num 2))
                    \<and> (is_num mean \<and> (is_num sd \<or> 0 < (2::real))
                        \<longrightarrow> js_le (lowerBand b ! j) (sma b ! j)
                            \<and> js_le (sma b ! j) (upperBand b ! j)))"
    by blast
  from vals have "let w = map Num (take 2 (drop 0 [1, 3]));
                     mean = fl_div exact (js_sum exact w) (Num (real 2));
                     sd = math_sqrt exact (variance_of exact w mean 2)
                 in sma b ! 0 = mean
                    \<and> upperBand b ! 0 = fl_add exact mean (fl_mul exact sd (Num 2))
                    \<and> lowerBand b ! 0 = fl_sub exact mean (fl_mul exact sd (Num 2))
                    \<and> (is_num mean \<and> (is_num sd \<or> 0 < (2::real))
                        \<longrightarrow> js_le (lowerBand b ! 0) (sma b ! 0)
                            \<and> js_le (sma b ! 0) (upperBand b ! 0))"
    by simp
  then have v: "sma b ! 0 = Num 2" "upperBand b ! 0 = Num 4" "lowerBand b ! 0 = Num 0"
    by (simp_all add: Let_def mean sd fl_sub_def round_small)
  from len v have "sma b = [Num 2]" "upperBand b = [Num 4]" "lowerBand b = [Num 0]"
    by (cases "sma b"; cases "upperBand b"; cases "lowerBand b"; simp)+
  then have "b = \<lparr>sma = [Num 2], upperBand = [Num 4], lowerBand = [Num 0]\<rparr>" by (cases b) simp
  with run h show ?thesis by simp
qed

text \<open>
  With the rounding that changes nothing, a finite middle is the mean of the window in
  the reals.
\<close>

lemma js_round_exact_Num: "js_round exact x = Num m \<Longrightarrow> m = x"
  using js_round_Num [of exact x m] by (simp add: exact_def)

lemma fl_add_exact_Num: "fl_add exact a b = Num s \<Longrightarrow> \<exists>x y. a = Num x \<and> b = Num y \<and> s = x + y"
  by (cases a; cases b) (auto dest: js_round_exact_Num)

lemma foldl_exact_Num:
  "foldl (fl_add exact) a (map Num ys) = Num s \<Longrightarrow> \<exists>x. a = Num x \<and> s = x + sum_list ys"
proof (induction ys arbitrary: a)
  case Nil
  then show ?case by simp
next
  case (Cons y ys)
  from Cons.prems have "foldl (fl_add exact) (fl_add exact a (Num y)) (map Num ys) = Num s" by simp
  from Cons.IH [OF this] obtain x' where x': "fl_add exact a (Num y) = Num x'" "s = x' + sum_list ys"
    by blast
  from fl_add_exact_Num [OF x'(1)] x'(2) show ?case by auto
qed

lemma mean_exact:
  assumes "w \<noteq> []" "period \<noteq> 0"
    and "fl_div exact (js_sum exact (map Num w)) (Num (real period)) = Num m"
  shows "m = sum_list w / real period"
proof -
  from assms(1) obtain x rest where w: "w = x # rest" by (cases w) auto
  let ?s = "js_sum exact (map Num w)"
  from assms(2,3) obtain s where s: "?s = Num s" and m: "js_round exact (s / real period) = Num m"
    by (cases ?s) (simp_all add: signed_inf_def split: if_splits)
  from s w have "foldl (fl_add exact) (Num x) (map Num rest) = Num s" by (simp add: js_sum_def)
  from foldl_exact_Num [OF this] w have "s = sum_list w" by simp
  with js_round_exact_Num [OF m] show ?thesis by simp
qed

section \<open>Inputs shorter than the lookback period\<close>

lemma calculateRSI_short: "length xs < period \<Longrightarrow> calculateRSI rnd xs period = Inr []"
proof -
  assume short: "length xs < period"
  then have p: "1 \<le> period" by simp
  from calculateRSI_eq [OF p, of rnd xs] short show ?thesis by simp
qed

lemma calculateBollingerBands_short:
  "length xs < period \<Longrightarrow>
   calculateBollingerBands rnd xs period stdDev = Inr \<lparr>sma = [], upperBand = [], lowerBand = []\<rparr>"
proof -
  assume short: "length xs < period"
  then have p: "1 \<le> period" by simp
  from calculateBollingerBands_eq [OF p, of rnd xs stdDev] short show ?thesis by simp
qed

lemma calculateStochastic_short:
  "length closes < period \<Longrightarrow> calculateStochastic highs lows closes period = []"
  by (simp add: calculateStochastic_eq)

text \<open>
  Claim C3 as stated fails for MACD: one close is fewer than any of its periods, and the
  MACD line returned for it has one element.
\<close>

theorem C3_macd_short_input_counterexample:
  "length [1 :: real] < 26
   \<and> macdLine (calculateMACD (map Num [1]) 12 26 9) = [Num 0]
   \<and> macdLine (calculateMACD (map Num [1]) 12 26 9) \<noteq> []"
  by (simp add: calculateMACD_def Let_def calculateEMA_def map_sub_def js_get_def js_sub_def)

text \<open>
  Claim C3, amended. For an input strictly shorter than the period, RSI, Bollinger Bands
  and Stochastic %K return empty outputs and do not throw. MACD does not throw either,
  but it has no lookback: for non-empty closes its three outputs have the length of the
  closes.
\<close>

theorem C3_short_input:
  assumes "length xs < period"
  shows "calculateRSI rnd xs period = Inr []
     \<and> calculateBollingerBands rnd xs period stdDev = Inr \<lparr>sma = [], upperBand = [], lowerBand = []\<rparr>
     \<and> calculateStochastic highs lows xs period = []
     \<and> (xs \<noteq> [] \<longrightarrow>
          length (macdLine (calculateMACD (map Num xs) fastPeriod slowPeriod signalPeriod)) = length xs
          \<and> length (signalLine (calculateMACD (map Num xs) fastPeriod slowPeriod signalPeriod)) = length xs
          \<and> length (histogram (calculateMACD (map Num xs) fastPeriod slowPeriod signalPeriod)) = length xs)"
proof (intro conjI impI)
  show "calculateRSI rnd xs period = Inr []" by (rule calculateRSI_short [OF assms])
  show "calculateBollingerBands rnd xs period stdDev = Inr \<lparr>sma = [], upperBand = [], lowerBand = []\<rparr>"
    by (rule calculateBollingerBands_short [OF assms])
  show "calculateStochastic highs lows xs period = []" by (rule calculateStochastic_short [OF assms])
next
  assume "xs \<noteq> []"
  then have n1: "max 1 (length (map Num xs)) = length xs" by (simp add: Suc_leI)
  note l = macd_lengths [of "map Num xs" fastPeriod slowPeriod signalPeriod, unfolded n1]
  from l show "length (macdLine (calculateMACD (map Num xs) fastPeriod slowPeriod signalPeriod)) = length xs"
    by blast
  from l show "length (signalLine (calculateMACD (map Num xs) fastPeriod slowPeriod signalPeriod)) = length xs"
    by blast
  from l show "length (histogram (calculateMACD (map Num xs) fastPeriod slowPeriod signalPeriod)) = length xs"
    by blast
qed

text \<open>The amended claim at two closes with period \<open>14\<close>.\<close>

theorem C3_short_input_witness:
  "length [1, 2 :: real] < 14
   \<and> calculateRSI exact [1, 2] 14 = Inr []
   \<and> calculateBollingerBands exact [1, 2] 14 2 = Inr \<lparr>sma = [], upperBand = [], lowerBand = []\<rparr>
   \<and> calculateStochastic [3, 4] [0, 1] [1, 2] 14 = []
   \<and> length (macdLine (calculateMACD (map Num [1, 2]) 12 26 14)) = 2"
proof -
  have h: "length [1, 2 :: real] < 14" by simp
  from C3_short_input [OF h, of exact 2 "[3, 4]" "[0, 1]" 12 26 14] h show ?thesis by simp
qed

end
